theory Spec2Isabelle
  imports Main
begin

section \<open>Commentary concept: data model\<close>

text \<open>
  Source: \<^verbatim>\<open>src/concepts/Commentary/CommentaryConcept.ts\<close>.
  Identifiers are opaque strings (\<^verbatim>\<open>type ID\<close> is a branded string), and so are
  \<^verbatim>\<open>Text\<close> and \<^verbatim>\<open>ReactionType\<close>.
\<close>

type_synonym ID = string
type_synonym Book = ID
type_synonym Section = ID
type_synonym User = ID
type_synonym Text = string
type_synonym ReactionType = string
type_synonym Comment = ID
type_synonym Reaction = ID
type_synonym Thread = ID

text \<open>
  The three document interfaces. The field \<^verbatim>\<open>_id\<close> of each interface is written
  \<open>thread_id\<close>, \<open>comment_id\<close>, \<open>reaction_id\<close> (an identifier cannot start with an
  underscore, and the three records need three names). The optional field
  \<^verbatim>\<open>parentId?\<close> is an \<open>option\<close>.
\<close>

record ThreadDoc =
  thread_id :: Thread
  book :: Book
  section' :: Section
  topLevelCommentIds :: "Comment list"

record CommentDoc =
  comment_id :: Comment
  author :: User
  body :: Text
  threadId :: Thread
  parentId :: "Comment option"
  reactionIds :: "Reaction list"

record ReactionDoc =
  reaction_id :: Reaction
  reactor :: User
  targetCommentId :: Comment
  type' :: ReactionType

text \<open>
  The concept owns three collections. A collection is the list of its documents in
  insertion order, which is the order \<^verbatim>\<open>find\<close> and \<^verbatim>\<open>findOne\<close> scan.
\<close>

record state =
  threads :: "ThreadDoc list"
  comments :: "CommentDoc list"
  reactions :: "ReactionDoc list"

text \<open>
  Every action returns either a success record or \<^verbatim>\<open>{ error: message }\<close>. The error
  value keeps the message of the source; its constructor is the kind the specification
  gives to that message.
\<close>

datatype error = NotFound string | Forbidden string | DuplicateReaction string

section \<open>The collection operations the concept calls\<close>

definition findOne :: "('a \<Rightarrow> bool) \<Rightarrow> 'a list \<Rightarrow> 'a option" where
  "findOne flt docs = List.find flt docs"

definition findToArray :: "('a \<Rightarrow> bool) \<Rightarrow> 'a list \<Rightarrow> 'a list" where
  "findToArray flt docs = filter flt docs"

definition insertOne :: "'a \<Rightarrow> 'a list \<Rightarrow> 'a list" where
  "insertOne doc docs = docs @ [doc]"

text \<open>\<^verbatim>\<open>updateOne\<close> changes the first document that matches, and nothing when none does.\<close>

fun updateOne :: "('a \<Rightarrow> bool) \<Rightarrow> ('a \<Rightarrow> 'a) \<Rightarrow> 'a list \<Rightarrow> 'a list" where
  "updateOne flt upd [] = []"
| "updateOne flt upd (d # docs) =
     (if flt d then upd d # docs else d # updateOne flt upd docs)"

definition deleteMany :: "('a \<Rightarrow> bool) \<Rightarrow> 'a list \<Rightarrow> 'a list" where
  "deleteMany flt docs = filter (\<lambda>d. \<not> flt d) docs"

text \<open>The update operators: \<^verbatim>\<open>$push\<close> appends, \<^verbatim>\<open>$pull\<close> removes every occurrence.\<close>

definition pushTopLevel :: "Comment \<Rightarrow> ThreadDoc \<Rightarrow> ThreadDoc" where
  "pushTopLevel c t = t\<lparr>topLevelCommentIds := topLevelCommentIds t @ [c]\<rparr>"

definition pullTopLevel :: "Comment \<Rightarrow> ThreadDoc \<Rightarrow> ThreadDoc" where
  "pullTopLevel c t = t\<lparr>topLevelCommentIds := removeAll c (topLevelCommentIds t)\<rparr>"

definition pushReaction :: "Reaction \<Rightarrow> CommentDoc \<Rightarrow> CommentDoc" where
  "pushReaction r c = c\<lparr>reactionIds := reactionIds c @ [r]\<rparr>"

section \<open>Actions\<close>

text \<open>
  \<^verbatim>\<open>freshID\<close> (of \<^verbatim>\<open>utils/database.ts\<close>) is an external generator: each action takes
  as a parameter the identifier a call of \<^verbatim>\<open>freshID()\<close> returns. \<open>postComment\<close> calls
  it for the thread only when no thread is found, and always for the comment.
\<close>

definition postComment ::
  "state \<Rightarrow> Thread \<Rightarrow> Comment \<Rightarrow> User \<Rightarrow> Book \<Rightarrow> Section \<Rightarrow> Text \<Rightarrow> (error + Comment) \<times> state" where
  "postComment s freshThread newCommentId author' book' sec body' =
     (let (threadId', s1) =
            (case findOne (\<lambda>t. book t = book' \<and> section' t = sec) (threads s) of
               None \<Rightarrow>
                 (freshThread,
                  s\<lparr>threads := insertOne
                       \<lparr>thread_id = freshThread, book = book', section' = sec,
                        topLevelCommentIds = []\<rparr> (threads s)\<rparr>)
             | Some threadDoc \<Rightarrow> (thread_id threadDoc, s));
          newComment =
            \<lparr>comment_id = newCommentId, author = author', body = body',
             threadId = threadId', parentId = None, reactionIds = []\<rparr>;
          s2 = s1\<lparr>comments := insertOne newComment (comments s1)\<rparr>;
          s3 = s2\<lparr>threads := updateOne (\<lambda>t. thread_id t = threadId')
                                 (pushTopLevel newCommentId) (threads s2)\<rparr>
      in (Inr newCommentId, s3))"

definition reply ::
  "state \<Rightarrow> Comment \<Rightarrow> User \<Rightarrow> Comment \<Rightarrow> Text \<Rightarrow> (error + Comment) \<times> state" where
  "reply s newCommentId author' parent body' =
     (case findOne (\<lambda>c. comment_id c = parent) (comments s) of
        None \<Rightarrow>
          (Inl (NotFound (''Parent comment with ID '' @ parent @ '' not found.'')), s)
      | Some parentComment \<Rightarrow>
          (let newComment =
                 \<lparr>comment_id = newCommentId, author = author', body = body',
                  threadId = threadId parentComment, parentId = Some parent,
                  reactionIds = []\<rparr>
           in (Inr newCommentId, s\<lparr>comments := insertOne newComment (comments s)\<rparr>)))"

definition react ::
  "state \<Rightarrow> Reaction \<Rightarrow> User \<Rightarrow> Comment \<Rightarrow> ReactionType \<Rightarrow> (error + Reaction) \<times> state" where
  "react s newReactionId reactor' target ty =
     (case findOne (\<lambda>c. comment_id c = target) (comments s) of
        None \<Rightarrow>
          (Inl (NotFound (''Target comment with ID '' @ target @ '' not found.'')), s)
      | Some targetComment \<Rightarrow>
          (case findOne (\<lambda>r. reactor r = reactor' \<and> targetCommentId r = target \<and> type' r = ty)
                  (reactions s) of
             Some existingReaction \<Rightarrow>
               (Inl (DuplicateReaction
                  (''User '' @ reactor' @ '' already reacted with type '' @ ty
                    @ '' to comment '' @ target @ ''.'')), s)
           | None \<Rightarrow>
               (let newReaction =
                      \<lparr>reaction_id = newReactionId, reactor = reactor',
                       targetCommentId = target, type' = ty\<rparr>;
                    s1 = s\<lparr>reactions := insertOne newReaction (reactions s)\<rparr>;
                    s2 = s1\<lparr>comments := updateOne (\<lambda>c. comment_id c = target)
                                            (pushReaction newReactionId) (comments s1)\<rparr>
                in (Inr newReactionId, s2))))"

text \<open>
  The worklist loop of \<open>deleteComment\<close>: \<^verbatim>\<open>queue.shift()\<close> takes the head, the ids
  of the comments whose \<^verbatim>\<open>parentId\<close> is that head are pushed on both arrays. The loop
  keeps no visited set, so on a cyclic parent relation it does not return: that is the
  value \<open>None\<close>.
\<close>

definition directChildren :: "CommentDoc list \<Rightarrow> Comment \<Rightarrow> Comment list" where
  "directChildren cs currentCommentId =
     map comment_id (findToArray (\<lambda>c. parentId c = Some currentCommentId) cs)"

partial_function (option) collectLoop ::
  "CommentDoc list \<Rightarrow> Comment list \<Rightarrow> Comment list \<Rightarrow> Comment list option" where
  "collectLoop cs commentsToDelete queue =
     (case queue of
        [] \<Rightarrow> Some commentsToDelete
      | currentCommentId # rest \<Rightarrow>
          collectLoop cs (commentsToDelete @ directChildren cs currentCommentId)
                         (rest @ directChildren cs currentCommentId))"

text \<open>
  \<^verbatim>\<open>!targetComment.parentId\<close> is true for a missing field and for the empty string.
\<close>

definition noParent :: "Comment option \<Rightarrow> bool" where
  "noParent p = (case p of None \<Rightarrow> True | Some i \<Rightarrow> i = [])"

definition deleteComment :: "state \<Rightarrow> User \<Rightarrow> Comment \<Rightarrow> ((error + unit) \<times> state) option" where
  "deleteComment s requestor target =
     (case findOne (\<lambda>c. comment_id c = target) (comments s) of
        None \<Rightarrow> Some (Inl (NotFound (''Comment with ID '' @ target @ '' not found.'')), s)
      | Some targetComment \<Rightarrow>
          if author targetComment \<noteq> requestor
          then Some (Inl (Forbidden
                 (''Requestor is not the author of comment '' @ target @ ''.'')), s)
          else
            (case collectLoop (comments s) [target] [target] of
               None \<Rightarrow> None
             | Some commentsToDelete \<Rightarrow>
                 (let s1 = s\<lparr>reactions := deleteMany
                              (\<lambda>r. targetCommentId r \<in> set commentsToDelete) (reactions s)\<rparr>;
                      s2 = s1\<lparr>comments := deleteMany
                              (\<lambda>c. comment_id c \<in> set commentsToDelete) (comments s1)\<rparr>;
                      s3 = (if noParent (parentId targetComment)
                            then s2\<lparr>threads := updateOne
                                   (\<lambda>t. thread_id t = threadId targetComment)
                                   (pullTopLevel target) (threads s2)\<rparr>
                            else s2)
                  in Some (Inr (), s3))))"

section \<open>Queries\<close>

text \<open>
  A query returns its result and the state it leaves, like an action; no query writes
  to a collection. \<^verbatim>\<open>null\<close> is \<open>None\<close>.
\<close>

definition getThreadComments ::
  "state \<Rightarrow> Book \<Rightarrow> Section \<Rightarrow> (error + CommentDoc list) \<times> state" where
  "getThreadComments s book' sec =
     (case findOne (\<lambda>t. book t = book' \<and> section' t = sec) (threads s) of
        None \<Rightarrow> (Inr [], s)
      | Some threadDoc \<Rightarrow>
          (Inr (findToArray (\<lambda>c. threadId c = thread_id threadDoc) (comments s)), s))"

definition getCommentReactions ::
  "state \<Rightarrow> Comment \<Rightarrow> (error + ReactionDoc list) \<times> state" where
  "getCommentReactions s comment =
     (Inr (findToArray (\<lambda>r. targetCommentId r = comment) (reactions s)), s)"

definition getComment :: "state \<Rightarrow> Comment \<Rightarrow> (error + CommentDoc option) \<times> state" where
  "getComment s commentId = (Inr (findOne (\<lambda>c. comment_id c = commentId) (comments s)), s)"

definition getThreadByBookAndSection ::
  "state \<Rightarrow> Book \<Rightarrow> Section \<Rightarrow> (error + ThreadDoc option) \<times> state" where
  "getThreadByBookAndSection s book' sec =
     (Inr (findOne (\<lambda>t. book t = book' \<and> section' t = sec) (threads s)), s)"

section \<open>The loop with a history variable\<close>

text \<open>
  The same loop with a history variable in place of \<^verbatim>\<open>commentsToDelete\<close>: it records
  each id that \<^verbatim>\<open>queue.shift()\<close> returns, in order. It is used only to state which ids
  the loop visits; \<open>deleteComment\<close> above does not use it.
\<close>

partial_function (option) collectVisited ::
  "CommentDoc list \<Rightarrow> Comment list \<Rightarrow> Comment list \<Rightarrow> Comment list option" where
  "collectVisited cs visited queue =
     (case queue of
        [] \<Rightarrow> Some visited
      | currentCommentId # rest \<Rightarrow>
          collectVisited cs (visited @ [currentCommentId])
            (rest @ directChildren cs currentCommentId))"

section \<open>Specification-side notions\<close>

text \<open>
  The descendant set in the words of the specification: start from the target, and
  collect every comment whose \<^verbatim>\<open>parentId\<close> is a comment already collected.
\<close>

inductive_set descendants :: "CommentDoc list \<Rightarrow> Comment \<Rightarrow> Comment set"
  for cs :: "CommentDoc list" and target_id :: Comment where
  start: "target_id \<in> descendants cs target_id"
| collect: "p \<in> descendants cs target_id \<Longrightarrow> c \<in> set cs \<Longrightarrow> parentId c = Some p
    \<Longrightarrow> comment_id c \<in> descendants cs target_id"

text \<open>
  A comment is created strictly after its parent: in the collection, which is in
  insertion order, no comment's \<^verbatim>\<open>parentId\<close> is its own id or the id of a later comment.
\<close>

fun createdBefore :: "CommentDoc list \<Rightarrow> bool" where
  "createdBefore [] = True"
| "createdBefore (c # rest) =
     ((\<forall>d \<in> set (c # rest). parentId c \<noteq> Some (comment_id d)) \<and> createdBefore rest)"

text \<open>
  The number of comments in the reply tree below an id (the id itself counted), read
  off a collection in which parents come first; the sum over the queue is the measure
  that decreases in each iteration of the worklist loop.
\<close>

fun subtreeSize :: "CommentDoc list \<Rightarrow> Comment \<Rightarrow> nat" where
  "subtreeSize [] q = 1"
| "subtreeSize (c # rest) q =
     (if parentId c = Some q then subtreeSize rest (comment_id c) + subtreeSize rest q
      else subtreeSize rest q)"

definition queueWeight :: "CommentDoc list \<Rightarrow> Comment list \<Rightarrow> nat" where
  "queueWeight cs queue = sum_list (map (subtreeSize cs) queue)"

text \<open>The database keeps \<^verbatim>\<open>_id\<close> unique in each collection.\<close>

definition uniqueIds :: "state \<Rightarrow> bool" where
  "uniqueIds s =
     (distinct (map thread_id (threads s)) \<and> distinct (map comment_id (comments s))
      \<and> distinct (map reaction_id (reactions s)))"

text \<open>Every \<^verbatim>\<open>parentId\<close> resolves to a comment, every reaction's target to a comment.\<close>

definition parentsExist :: "CommentDoc list \<Rightarrow> bool" where
  "parentsExist cs =
     (\<forall>c \<in> set cs. case parentId c of None \<Rightarrow> True
                                     | Some p \<Rightarrow> p \<in> comment_id ` set cs)"

definition targetsExist :: "state \<Rightarrow> bool" where
  "targetsExist s =
     (\<forall>r \<in> set (reactions s). targetCommentId r \<in> comment_id ` set (comments s))"

text \<open>Invariant: at most one Thread per (book, section) pair.\<close>

definition oneThreadPerSection :: "ThreadDoc list \<Rightarrow> bool" where
  "oneThreadPerSection ts = distinct (map (\<lambda>t. (book t, section' t)) ts)"

text \<open>Invariant: a reply is in the thread of its parent.\<close>

definition sameThreadAsParent :: "CommentDoc list \<Rightarrow> bool" where
  "sameThreadAsParent cs =
     (\<forall>c \<in> set cs. \<forall>d \<in> set cs.
        parentId c = Some (comment_id d) \<longrightarrow> threadId c = threadId d)"

text \<open>
  A comment's reaction-id list holds exactly the ids of the reactions that target it.
\<close>

definition reactionsAttached :: "state \<Rightarrow> bool" where
  "reactionsAttached s =
     (\<forall>c \<in> set (comments s).
        set (reactionIds c) =
        reaction_id ` set (findToArray (\<lambda>r. targetCommentId r = comment_id c) (reactions s)))"

definition wellFormed :: "state \<Rightarrow> bool" where
  "wellFormed s =
     (uniqueIds s \<and> createdBefore (comments s) \<and> parentsExist (comments s)
      \<and> targetsExist s \<and> oneThreadPerSection (threads s)
      \<and> sameThreadAsParent (comments s) \<and> reactionsAttached s)"

text \<open>
  The states the four actions reach from the empty store. \<^verbatim>\<open>freshID\<close> returns an
  identifier that no document of the collection carries.
\<close>

definition emptyState :: state where
  "emptyState = \<lparr>threads = [], comments = [], reactions = []\<rparr>"

inductive reachable :: "state \<Rightarrow> bool" where
  initial: "reachable emptyState"
| posted: "reachable s \<Longrightarrow> freshThread \<notin> thread_id ` set (threads s)
    \<Longrightarrow> newCommentId \<notin> comment_id ` set (comments s)
    \<Longrightarrow> reachable (snd (postComment s freshThread newCommentId a b sec txt))"
| replied: "reachable s \<Longrightarrow> newCommentId \<notin> comment_id ` set (comments s)
    \<Longrightarrow> reachable (snd (reply s newCommentId a parent txt))"
| reacted: "reachable s \<Longrightarrow> newReactionId \<notin> reaction_id ` set (reactions s)
    \<Longrightarrow> reachable (snd (react s newReactionId u target ty))"
| deleted: "reachable s \<Longrightarrow> deleteComment s requestor target = Some (res, s')
    \<Longrightarrow> reachable s'"

section \<open>The scenario of the specification\<close>

text \<open>
  alice posts A on (B1, S1), bob replies to A, bob reacts to A with like and love, alice
  reacts to A with like; bob then posts a second top-level comment C on the same section.
\<close>

definition scenario :: state where
  "scenario =
     \<lparr>threads =
        [\<lparr>thread_id = ''T1'', book = ''B1'', section' = ''S1'',
          topLevelCommentIds = [''A'', ''C'']\<rparr>],
      comments =
        [\<lparr>comment_id = ''A'', author = ''alice'', body = ''first'', threadId = ''T1'',
          parentId = None, reactionIds = [''r1'', ''r2'', ''r3'']\<rparr>,
         \<lparr>comment_id = ''R'', author = ''bob'', body = ''answer'', threadId = ''T1'',
          parentId = Some ''A'', reactionIds = []\<rparr>,
         \<lparr>comment_id = ''C'', author = ''bob'', body = ''second'', threadId = ''T1'',
          parentId = None, reactionIds = []\<rparr>],
      reactions =
        [\<lparr>reaction_id = ''r1'', reactor = ''bob'', targetCommentId = ''A'', type' = ''like''\<rparr>,
         \<lparr>reaction_id = ''r2'', reactor = ''bob'', targetCommentId = ''A'', type' = ''love''\<rparr>,
         \<lparr>reaction_id = ''r3'', reactor = ''alice'', targetCommentId = ''A'', type' = ''like''\<rparr>]\<rparr>"

definition afterDelete :: state where
  "afterDelete =
     \<lparr>threads =
        [\<lparr>thread_id = ''T1'', book = ''B1'', section' = ''S1'',
          topLevelCommentIds = [''C'']\<rparr>],
      comments =
        [\<lparr>comment_id = ''C'', author = ''bob'', body = ''second'', threadId = ''T1'',
          parentId = None, reactionIds = []\<rparr>],
      reactions = []\<rparr>"

definition lastRemoved :: state where
  "lastRemoved =
     \<lparr>threads =
        [\<lparr>thread_id = ''T1'', book = ''B1'', section' = ''S1'', topLevelCommentIds = []\<rparr>],
      comments = [], reactions = []\<rparr>"

section \<open>The descendant set and the worklist loop\<close>

lemma set_directChildren:
  "set (directChildren cs p) = {comment_id c | c. c \<in> set cs \<and> parentId c = Some p}"
  by (auto simp: directChildren_def findToArray_def)

lemma descendants_trans:
  "x \<in> descendants cs q \<Longrightarrow> q \<in> descendants cs t \<Longrightarrow> x \<in> descendants cs t"
  by (induction rule: descendants.induct) (auto intro: descendants.collect)

lemma descendants_child:
  "c \<in> set (directChildren cs p) \<Longrightarrow> c \<in> descendants cs p"
  by (auto simp: set_directChildren intro: descendants.intros)

lemma descendants_unfold:
  "descendants cs q = insert q (\<Union>c \<in> set (directChildren cs q). descendants cs c)"
proof (intro set_eqI iffI)
  fix x assume "x \<in> descendants cs q"
  then show "x \<in> insert q (\<Union>c \<in> set (directChildren cs q). descendants cs c)"
  proof (induction rule: descendants.induct)
    case start
    then show ?case by simp
  next
    case (collect p c)
    then show ?case
      by (auto simp: set_directChildren intro: descendants.intros)
  qed
next
  fix x assume "x \<in> insert q (\<Union>c \<in> set (directChildren cs q). descendants cs c)"
  then show "x \<in> descendants cs q"
    by (auto intro: descendants.start descendants_trans descendants_child)
qed

lemma collectLoop_set_aux:
  assumes "collectLoop cs acc queue = Some r"
  shows "set queue \<subseteq> set acc \<longrightarrow>
         set r = set acc \<union> (\<Union>q \<in> set queue. descendants cs q)"
proof (rule collectLoop.raw_induct
    [where P = "\<lambda>cs acc queue r. set queue \<subseteq> set acc \<longrightarrow>
         set r = set acc \<union> (\<Union>q \<in> set queue. descendants cs q)", OF _ assms])
  fix f cs acc queue r
  assume IH: "\<And>cs acc queue r. f cs acc queue = Some r \<Longrightarrow>
      set queue \<subseteq> set acc \<longrightarrow> set r = set acc \<union> (\<Union>q \<in> set queue. descendants cs q)"
    and step: "(case queue of [] \<Rightarrow> Some acc
        | cur # rest \<Rightarrow> f cs (acc @ directChildren cs cur) (rest @ directChildren cs cur))
        = Some r"
  show "set queue \<subseteq> set acc \<longrightarrow> set r = set acc \<union> (\<Union>q \<in> set queue. descendants cs q)"
  proof (cases queue)
    case Nil
    with step show ?thesis by simp
  next
    case (Cons cur rest)
    let ?ch = "directChildren cs cur"
    from step Cons have rec: "f cs (acc @ ?ch) (rest @ ?ch) = Some r" by simp
    show ?thesis
    proof
      assume sub0: "set queue \<subseteq> set acc"
      with Cons have sub: "set (rest @ ?ch) \<subseteq> set (acc @ ?ch)" by auto
      from IH[OF rec] sub
      have "set r = set (acc @ ?ch) \<union> (\<Union>q \<in> set (rest @ ?ch). descendants cs q)"
        by blast
      moreover have "cur \<in> set acc" using sub0 Cons by simp
      moreover have "set ?ch \<subseteq> (\<Union>c \<in> set ?ch. descendants cs c)"
        by (auto intro: descendants.start)
      ultimately show "set r = set acc \<union> (\<Union>q \<in> set queue. descendants cs q)"
        unfolding Cons using descendants_unfold[of cs cur] by auto
    qed
  qed
qed

lemma collectLoop_descendants:
  "collectLoop cs [t] [t] = Some r \<Longrightarrow> set r = descendants cs t"
  using collectLoop_set_aux[of cs "[t]" "[t]" r] by (auto intro: descendants.start)

section \<open>Termination of the worklist loop\<close>

lemma subtreeSize_pos: "0 < subtreeSize cs q"
  by (induction cs arbitrary: q) auto

lemma directChildren_Cons:
  "directChildren (c # rest) q =
     (if parentId c = Some q then comment_id c # directChildren rest q else directChildren rest q)"
  by (simp add: directChildren_def findToArray_def)

lemma directChildren_subset: "set (directChildren cs q) \<subseteq> comment_id ` set cs"
  by (auto simp: set_directChildren)

lemma subtreeSize_unfold:
  "createdBefore cs \<Longrightarrow>
   subtreeSize cs q = 1 + queueWeight cs (directChildren cs q)"
proof (induction cs arbitrary: q)
  case Nil
  then show ?case by (simp add: queueWeight_def directChildren_def findToArray_def)
next
  case (Cons c rest)
  have same: "subtreeSize (c # rest) x = subtreeSize rest x" if "x \<in> comment_id ` set (c # rest)" for x
    using Cons.prems that by auto
  have "map (subtreeSize (c # rest)) (directChildren rest q) = map (subtreeSize rest) (directChildren rest q)"
  proof (rule map_cong[OF refl])
    fix x assume "x \<in> set (directChildren rest q)"
    then have "x \<in> comment_id ` set (c # rest)"
      using directChildren_subset[of rest q] by auto
    then show "subtreeSize (c # rest) x = subtreeSize rest x" by (rule same)
  qed
  then have w: "queueWeight (c # rest) (directChildren rest q) = queueWeight rest (directChildren rest q)"
    unfolding queueWeight_def by (rule arg_cong[where f = sum_list])
  have IH: "subtreeSize rest q = 1 + queueWeight rest (directChildren rest q)"
    using Cons by simp
  show ?case
  proof (cases "parentId c = Some q")
    case True
    have "subtreeSize (c # rest) (comment_id c) = subtreeSize rest (comment_id c)"
      using same by simp
    then have "queueWeight (c # rest) (directChildren (c # rest) q) =
        subtreeSize rest (comment_id c) + queueWeight rest (directChildren rest q)"
      using True w by (simp add: directChildren_Cons queueWeight_def)
    with True IH show ?thesis by simp
  next
    case False
    with w IH show ?thesis by (simp add: directChildren_Cons)
  qed
qed

lemma collectLoop_terminates:
  assumes "createdBefore cs"
  shows "\<exists>r. collectLoop cs acc queue = Some r"
proof (induction "queueWeight cs queue" arbitrary: acc queue rule: less_induct)
  case less
  show ?case
  proof (cases queue)
    case Nil
    then show ?thesis by (simp add: collectLoop.simps)
  next
    case (Cons cur rest)
    let ?ch = "directChildren cs cur"
    have "queueWeight cs (rest @ ?ch) < queueWeight cs queue"
      using subtreeSize_unfold[OF assms, of cur] Cons by (simp add: queueWeight_def)
    from less[OF this, of "acc @ ?ch"] obtain r where
      "collectLoop cs (acc @ ?ch) (rest @ ?ch) = Some r" by blast
    then show ?thesis using Cons by (subst collectLoop.simps) simp
  qed
qed

section \<open>Effect of a successful deleteComment\<close>

lemma deleteComment_success:
  assumes "deleteComment s requestor target = Some (Inr (), s')"
  shows "\<exists>tc. findOne (\<lambda>c. comment_id c = target) (comments s) = Some tc
      \<and> author tc = requestor
      \<and> comments s' =
          filter (\<lambda>c. comment_id c \<notin> descendants (comments s) target) (comments s)
      \<and> reactions s' =
          filter (\<lambda>r. targetCommentId r \<notin> descendants (comments s) target) (reactions s)
      \<and> threads s' =
          (if noParent (parentId tc)
           then updateOne (\<lambda>t. thread_id t = threadId tc) (pullTopLevel target) (threads s)
           else threads s)"
proof (cases "findOne (\<lambda>c. comment_id c = target) (comments s)")
  case None
  with assms show ?thesis by (simp add: deleteComment_def)
next
  case (Some tc)
  with assms have auth: "author tc = requestor"
    by (auto simp: deleteComment_def split: if_splits)
  from assms Some auth obtain r where r: "collectLoop (comments s) [target] [target] = Some r"
    by (auto simp: deleteComment_def split: option.splits)
  have D: "set r = descendants (comments s) target"
    using collectLoop_descendants[OF r] .
  from assms Some auth r have
    "s' = (let s1 = s\<lparr>reactions := deleteMany (\<lambda>r'. targetCommentId r' \<in> set r) (reactions s)\<rparr>;
               s2 = s1\<lparr>comments := deleteMany (\<lambda>c. comment_id c \<in> set r) (comments s1)\<rparr>
           in (if noParent (parentId tc)
               then s2\<lparr>threads := updateOne (\<lambda>t. thread_id t = threadId tc)
                      (pullTopLevel target) (threads s2)\<rparr>
               else s2))"
    by (simp add: deleteComment_def Let_def)
  with Some auth D show ?thesis
    by (simp add: Let_def deleteMany_def)
qed

lemma deleteComment_scenario:
  "deleteComment scenario ''alice'' ''A'' = Some (Inr (), afterDelete)"
  by (simp add: deleteComment_def scenario_def afterDelete_def findOne_def collectLoop.simps
      directChildren_def findToArray_def deleteMany_def noParent_def pullTopLevel_def)

lemma findOne_Some_mem: "findOne P xs = Some x \<Longrightarrow> x \<in> set xs \<and> P x"
  by (auto simp: findOne_def find_Some_iff)

lemma findOne_None_iff: "findOne P xs = None \<longleftrightarrow> (\<forall>x \<in> set xs. \<not> P x)"
  by (auto simp: findOne_def find_None_iff)

lemma map_updateOne:
  "(\<And>x. g (f x) = g x) \<Longrightarrow> map g (updateOne P f xs) = map g xs"
  by (induction xs) auto

lemma length_updateOne: "length (updateOne P f xs) = length xs"
  by (induction xs) auto

lemma findOne_updateOne:
  "(\<And>x. P (f x) = P x) \<Longrightarrow> findOne P (updateOne P f xs) = map_option f (findOne P xs)"
  by (induction xs) (auto simp: findOne_def)

lemma filter_updateOne_others:
  "(\<And>x. P (f x) = P x) \<Longrightarrow>
   filter (\<lambda>x. \<not> P x) (updateOne P f xs) = filter (\<lambda>x. \<not> P x) xs"
  by (induction xs) auto

lemma descendants_exist:
  "x \<in> descendants cs t \<Longrightarrow> t \<in> comment_id ` set cs \<Longrightarrow> x \<in> comment_id ` set cs"
  by (induction rule: descendants.induct) auto

lemma length_filter_ids:
  assumes "distinct (map g xs)" and "D \<subseteq> g ` set xs"
  shows "length (filter (\<lambda>x. g x \<in> D) xs) = card D"
proof -
  have "length (filter (\<lambda>x. g x \<in> D) xs) = length (filter (\<lambda>i. i \<in> D) (map g xs))"
    by (simp add: filter_map comp_def)
  also have "\<dots> = card (set (filter (\<lambda>i. i \<in> D) (map g xs)))"
    by (rule distinct_card[symmetric], rule distinct_filter, rule assms(1))
  also have "set (filter (\<lambda>i. i \<in> D) (map g xs)) = D"
    using assms(2) by auto
  finally show ?thesis .
qed



lemma findOne_pullTopLevel:
  "findOne (\<lambda>t. thread_id t = i) (updateOne (\<lambda>t. thread_id t = i) (pullTopLevel c) ts) =
   map_option (pullTopLevel c) (findOne (\<lambda>t. thread_id t = i) ts)"
  by (rule findOne_updateOne) (simp add: pullTopLevel_def)

lemma filter_others_pullTopLevel:
  "filter (\<lambda>t. thread_id t \<noteq> i) (updateOne (\<lambda>t. thread_id t = i) (pullTopLevel c) ts) =
   filter (\<lambda>t. thread_id t \<noteq> i) ts"
  by (rule filter_updateOne_others) (simp add: pullTopLevel_def)

lemma A_found:
  "findOne (\<lambda>c. comment_id c = ''A'') (comments scenario) = Some (hd (comments scenario))"
  by (simp add: findOne_def scenario_def)

lemma descendants_scenario: "descendants (comments scenario) ''A'' = {''A'', ''R''}"
proof (intro set_eqI iffI)
  fix x assume "x \<in> descendants (comments scenario) ''A''"
  then show "x \<in> {''A'', ''R''}"
    by (induction rule: descendants.induct) (auto simp: scenario_def)
next
  fix x assume "x \<in> {''A'', ''R''}"
  moreover have "''A'' \<in> descendants (comments scenario) ''A''" by (rule descendants.start)
  moreover from this have "comment_id ((comments scenario) ! 1) \<in> descendants (comments scenario) ''A''"
    by (rule descendants.collect) (simp_all add: scenario_def)
  then have "''R'' \<in> descendants (comments scenario) ''A''" by (simp add: scenario_def)
  ultimately show "x \<in> descendants (comments scenario) ''A''" by auto
qed

text \<open>
  C1. When \<open>deleteComment\<close> succeeds on a top-level comment, the comments removed are
  exactly those whose id is in the descendant set of the target (the target included),
  the reactions removed are exactly those whose target is in that set, and every other
  comment and reaction is kept as it was. With unique comment ids the collection loses
  1 + N documents, N being the number of descendants other than the target. The thread
  the target belongs to keeps its top-level list with every occurrence of the target
  removed and every other id retained in order; all other threads are unchanged.
\<close>

theorem deleteComment_top_level_cascade:
  assumes "deleteComment s requestor target = Some (Inr (), s')"
    and "findOne (\<lambda>c. comment_id c = target) (comments s) = Some tc"
    and "parentId tc = None"
  shows "comments s' =
           filter (\<lambda>c. comment_id c \<notin> descendants (comments s) target) (comments s)
       \<and> reactions s' =
           filter (\<lambda>r. targetCommentId r \<notin> descendants (comments s) target) (reactions s)
       \<and> (distinct (map comment_id (comments s)) \<longrightarrow>
            length (comments s) =
              length (comments s') + 1 + card (descendants (comments s) target - {target}))
       \<and> (\<forall>t. findOne (\<lambda>t. thread_id t = threadId tc) (threads s) = Some t \<longrightarrow>
            findOne (\<lambda>t. thread_id t = threadId tc) (threads s') =
              Some (t\<lparr>topLevelCommentIds := removeAll target (topLevelCommentIds t)\<rparr>))
       \<and> filter (\<lambda>t. thread_id t \<noteq> threadId tc) (threads s') =
           filter (\<lambda>t. thread_id t \<noteq> threadId tc) (threads s)
       \<and> length (threads s') = length (threads s)"
proof -
  let ?D = "descendants (comments s) target"
  from deleteComment_success[OF assms(1)] assms(2,3)
  have cs: "comments s' = filter (\<lambda>c. comment_id c \<notin> ?D) (comments s)"
    and rs: "reactions s' = filter (\<lambda>r. targetCommentId r \<notin> ?D) (reactions s)"
    and ts: "threads s' =
        updateOne (\<lambda>t. thread_id t = threadId tc) (pullTopLevel target) (threads s)"
    by (auto simp: noParent_def)
  have count: "length (comments s) = length (comments s') + 1 + card (?D - {target})"
    if dist: "distinct (map comment_id (comments s))"
  proof -
    have tin: "target \<in> comment_id ` set (comments s)"
      using findOne_Some_mem[OF assms(2)] by force
    then have sub: "?D \<subseteq> comment_id ` set (comments s)"
      using descendants_exist by blast
    then have fin: "finite ?D" by (rule finite_subset) simp
    have "card ?D = 1 + card (?D - {target})"
      using card_Suc_Diff1[OF fin descendants.start[of target "comments s"]] by simp
    moreover have "length (filter (\<lambda>c. comment_id c \<in> ?D) (comments s)) = card ?D"
      using length_filter_ids[OF dist sub] .
    moreover have "length (comments s) =
        length (filter (\<lambda>c. comment_id c \<in> ?D) (comments s))
        + length (filter (\<lambda>c. comment_id c \<notin> ?D) (comments s))"
      using sum_length_filter_compl[of "\<lambda>c. comment_id c \<in> ?D" "comments s"] by simp
    ultimately show ?thesis using cs by simp
  qed
  have thr: "findOne (\<lambda>t. thread_id t = threadId tc) (threads s') =
      Some (t\<lparr>topLevelCommentIds := removeAll target (topLevelCommentIds t)\<rparr>)"
    if "findOne (\<lambda>t. thread_id t = threadId tc) (threads s) = Some t" for t
    unfolding ts findOne_pullTopLevel that by (simp add: pullTopLevel_def)
  have others: "filter (\<lambda>t. thread_id t \<noteq> threadId tc) (threads s') =
           filter (\<lambda>t. thread_id t \<noteq> threadId tc) (threads s)"
    unfolding ts by (rule filter_others_pullTopLevel)
  have len: "length (threads s') = length (threads s)"
    unfolding ts by (rule length_updateOne)
  show ?thesis
  proof (intro conjI allI impI)
    show "comments s' = filter (\<lambda>c. comment_id c \<notin> ?D) (comments s)" by (rule cs)
    show "reactions s' = filter (\<lambda>r. targetCommentId r \<notin> ?D) (reactions s)" by (rule rs)
    show "length (comments s) = length (comments s') + 1 + card (?D - {target})"
      if "distinct (map comment_id (comments s))" using that by (rule count)
    show "findOne (\<lambda>t. thread_id t = threadId tc) (threads s') =
      Some (t\<lparr>topLevelCommentIds := removeAll target (topLevelCommentIds t)\<rparr>)"
      if "findOne (\<lambda>t. thread_id t = threadId tc) (threads s) = Some t" for t
      using that by (rule thr)
    show "filter (\<lambda>t. thread_id t \<noteq> threadId tc) (threads s') =
           filter (\<lambda>t. thread_id t \<noteq> threadId tc) (threads s)" by (rule others)
    show "length (threads s') = length (threads s)" by (rule len)
  qed
qed

theorem deleteComment_top_level_cascade_witness:
  "deleteComment scenario ''alice'' ''A'' = Some (Inr (), afterDelete)
   \<and> findOne (\<lambda>c. comment_id c = ''A'') (comments scenario) = Some (hd (comments scenario))
   \<and> parentId (hd (comments scenario)) = None
   \<and> distinct (map comment_id (comments scenario))
   \<and> descendants (comments scenario) ''A'' = {''A'', ''R''}
   \<and> comments afterDelete =
        filter (\<lambda>c. comment_id c \<notin> {''A'', ''R''}) (comments scenario)
   \<and> reactions afterDelete =
        filter (\<lambda>r. targetCommentId r \<notin> {''A'', ''R''}) (reactions scenario)
   \<and> length (comments scenario) = length (comments afterDelete) + 1 + 1
   \<and> map topLevelCommentIds (threads afterDelete) = [[''C'']]"
proof -
  have p: "parentId (hd (comments scenario)) = None" by (simp add: scenario_def)
  have d: "distinct (map comment_id (comments scenario))" by (simp add: scenario_def)
  have c: "card ({''A'', ''R''} - {''A''} :: string set) = 1" by simp
  from deleteComment_top_level_cascade[OF deleteComment_scenario A_found p] d c
  have "comments afterDelete =
        filter (\<lambda>c. comment_id c \<notin> {''A'', ''R''}) (comments scenario)
   \<and> reactions afterDelete =
        filter (\<lambda>r. targetCommentId r \<notin> {''A'', ''R''}) (reactions scenario)
   \<and> length (comments scenario) = length (comments afterDelete) + 1 + 1"
    unfolding descendants_scenario by simp
  moreover have "map topLevelCommentIds (threads afterDelete) = [[''C'']]"
    by (simp add: afterDelete_def)
  ultimately show ?thesis
    using deleteComment_scenario A_found p d descendants_scenario by simp
qed

section \<open>Absence after deletion, and the threads that stay\<close>

text \<open>
  C7. After a successful \<open>deleteComment\<close>, for every id in the descendant set of the
  target (the target and each reply below it) the query \<open>getComment\<close> returns
  \<^verbatim>\<open>null\<close>, never a comment, and \<open>getCommentReactions\<close> returns the empty list.
\<close>

theorem deleted_comments_are_absent:
  assumes "deleteComment s requestor target = Some (Inr (), s')"
    and "c \<in> descendants (comments s) target"
  shows "fst (getComment s' c) = Inr None \<and> fst (getCommentReactions s' c) = Inr []"
proof -
  from deleteComment_success[OF assms(1)]
  have cs: "comments s' =
        filter (\<lambda>d. comment_id d \<notin> descendants (comments s) target) (comments s)"
    and rs: "reactions s' =
        filter (\<lambda>r. targetCommentId r \<notin> descendants (comments s) target) (reactions s)"
    by auto
  have "findOne (\<lambda>d. comment_id d = c) (comments s') = None"
    unfolding findOne_None_iff cs using assms(2) by auto
  moreover have "findToArray (\<lambda>r. targetCommentId r = c) (reactions s') = []"
    unfolding findToArray_def rs using assms(2) by (auto simp: filter_empty_conv)
  ultimately show ?thesis by (simp add: getComment_def getCommentReactions_def)
qed

theorem deleted_comments_are_absent_witness:
  "deleteComment scenario ''alice'' ''A'' = Some (Inr (), afterDelete)
   \<and> ''R'' \<in> descendants (comments scenario) ''A''
   \<and> fst (getComment scenario ''R'') \<noteq> Inr None
   \<and> fst (getComment afterDelete ''R'') = Inr None
   \<and> fst (getCommentReactions afterDelete ''R'') = Inr []"
proof -
  have m: "''R'' \<in> descendants (comments scenario) ''A''"
    by (simp add: descendants_scenario)
  have b: "fst (getComment scenario ''R'') \<noteq> Inr None"
    by (simp add: getComment_def findOne_def scenario_def)
  from deleted_comments_are_absent[OF deleteComment_scenario m] deleteComment_scenario m b
  show ?thesis by simp
qed

lemma map_pullTopLevel:
  "map thread_id (updateOne P (pullTopLevel c) ts) = map thread_id ts"
  "map book (updateOne P (pullTopLevel c) ts) = map book ts"
  "map section' (updateOne P (pullTopLevel c) ts) = map section' ts"
  by (rule map_updateOne, simp add: pullTopLevel_def)+

lemma deleteComment_threads:
  assumes "deleteComment s requestor target = Some (res, s')"
  shows "threads s' = threads s
     \<or> (\<exists>i. threads s' = updateOne (\<lambda>t. thread_id t = i) (pullTopLevel target) (threads s))"
proof (cases res)
  case (Inl e)
  with assms have "s' = s"
    by (auto simp: deleteComment_def Let_def split: option.splits if_splits)
  then show ?thesis by simp
next
  case (Inr u)
  with assms deleteComment_success[of s requestor target s'] show ?thesis
    by (auto split: if_splits)
qed

lemma postComment_threads:
  "\<exists>new. map (\<lambda>t. (thread_id t, book t, section' t))
            (threads (snd (postComment s freshThread newCommentId a b sec txt))) =
          map (\<lambda>t. (thread_id t, book t, section' t)) (threads s) @ new"
  by (auto simp: postComment_def Let_def insertOne_def pushTopLevel_def
      map_updateOne split: option.splits)

text \<open>
  C8. No action deletes a thread document. Whatever \<open>deleteComment\<close> returns, the
  threads afterwards carry the same ids, books and sections, in the same order; when the
  call removes the only top-level comment of a thread, that thread is still found, with
  an empty top-level list. \<open>reply\<close> and \<open>react\<close> leave the threads as they are and
  \<open>postComment\<close> only adds one at the end.
\<close>

theorem threads_are_never_deleted:
  "(\<forall>res s'. deleteComment s requestor target = Some (res, s') \<longrightarrow>
      map thread_id (threads s') = map thread_id (threads s)
      \<and> map book (threads s') = map book (threads s)
      \<and> map section' (threads s') = map section' (threads s)
      \<and> (\<forall>tc t. res = Inr ()
            \<and> findOne (\<lambda>c. comment_id c = target) (comments s) = Some tc
            \<and> parentId tc = None
            \<and> findOne (\<lambda>t. thread_id t = threadId tc) (threads s) = Some t
            \<and> set (topLevelCommentIds t) = {target} \<longrightarrow>
          findOne (\<lambda>t. thread_id t = threadId tc) (threads s') =
            Some (t\<lparr>topLevelCommentIds := []\<rparr>)))
   \<and> threads (snd (reply s newCommentId a parent txt)) = threads s
   \<and> threads (snd (react s newReactionId u target' ty)) = threads s
   \<and> (\<exists>new. map (\<lambda>t. (thread_id t, book t, section' t))
                (threads (snd (postComment s freshThread newCommentId' a' b sec txt'))) =
              map (\<lambda>t. (thread_id t, book t, section' t)) (threads s) @ new)"
proof (intro conjI allI impI)
  fix res s' assume del: "deleteComment s requestor target = Some (res, s')"
  from deleteComment_threads[OF del]
  show "map thread_id (threads s') = map thread_id (threads s)"
    and "map book (threads s') = map book (threads s)"
    and "map section' (threads s') = map section' (threads s)"
    by (auto simp: map_pullTopLevel)
  fix tc t
  assume h: "res = Inr ()
            \<and> findOne (\<lambda>c. comment_id c = target) (comments s) = Some tc
            \<and> parentId tc = None
            \<and> findOne (\<lambda>t. thread_id t = threadId tc) (threads s) = Some t
            \<and> set (topLevelCommentIds t) = {target}"
  then have "removeAll target (topLevelCommentIds t) = []"
    by (auto simp: removeAll_filter_not_eq filter_empty_conv)
  moreover from h del have "deleteComment s requestor target = Some (Inr (), s')" by simp
  from deleteComment_success[OF this] h
  have "threads s' =
      updateOne (\<lambda>t. thread_id t = threadId tc) (pullTopLevel target) (threads s)"
    by (auto simp: noParent_def)
  with h have "findOne (\<lambda>t. thread_id t = threadId tc) (threads s') =
    Some (t\<lparr>topLevelCommentIds := removeAll target (topLevelCommentIds t)\<rparr>)"
    by (simp add: findOne_pullTopLevel pullTopLevel_def)
  ultimately show "findOne (\<lambda>t. thread_id t = threadId tc) (threads s') =
            Some (t\<lparr>topLevelCommentIds := []\<rparr>)" by simp
next
  show "threads (snd (reply s newCommentId a parent txt)) = threads s"
    by (simp add: reply_def split: option.splits)
  show "threads (snd (react s newReactionId u target' ty)) = threads s"
    by (simp add: react_def Let_def split: option.splits)
  show "\<exists>new. map (\<lambda>t. (thread_id t, book t, section' t))
                (threads (snd (postComment s freshThread newCommentId' a' b sec txt'))) =
              map (\<lambda>t. (thread_id t, book t, section' t)) (threads s) @ new"
    by (rule postComment_threads)
qed


lemma deleteComment_afterDelete:
  "deleteComment afterDelete ''bob'' ''C'' = Some (Inr (), lastRemoved)"
  by (simp add: deleteComment_def lastRemoved_def afterDelete_def findOne_def collectLoop.simps
      directChildren_def findToArray_def deleteMany_def noParent_def pullTopLevel_def)

theorem threads_are_never_deleted_witness:
  "deleteComment afterDelete ''bob'' ''C'' = Some (Inr (), lastRemoved)
   \<and> findOne (\<lambda>c. comment_id c = ''C'') (comments afterDelete) = Some (hd (comments afterDelete))
   \<and> parentId (hd (comments afterDelete)) = None
   \<and> findOne (\<lambda>t. thread_id t = threadId (hd (comments afterDelete))) (threads afterDelete)
        = Some (hd (threads afterDelete))
   \<and> set (topLevelCommentIds (hd (threads afterDelete))) = {''C''}
   \<and> map thread_id (threads lastRemoved) = map thread_id (threads afterDelete)
   \<and> map book (threads lastRemoved) = map book (threads afterDelete)
   \<and> map section' (threads lastRemoved) = map section' (threads afterDelete)
   \<and> findOne (\<lambda>t. thread_id t = threadId (hd (comments afterDelete))) (threads lastRemoved)
        = Some ((hd (threads afterDelete))\<lparr>topLevelCommentIds := []\<rparr>)"
proof -
  have h: "findOne (\<lambda>c. comment_id c = ''C'') (comments afterDelete) = Some (hd (comments afterDelete))
   \<and> parentId (hd (comments afterDelete)) = None
   \<and> findOne (\<lambda>t. thread_id t = threadId (hd (comments afterDelete))) (threads afterDelete)
        = Some (hd (threads afterDelete))
   \<and> set (topLevelCommentIds (hd (threads afterDelete))) = {''C''}"
    by (simp add: afterDelete_def findOne_def)
  note T = threads_are_never_deleted[of afterDelete "''bob''" "''C''", THEN conjunct1,
      THEN spec, THEN spec, THEN mp, OF deleteComment_afterDelete]
  have e: "findOne (\<lambda>t. thread_id t = threadId (hd (comments afterDelete))) (threads lastRemoved)
        = Some ((hd (threads afterDelete))\<lparr>topLevelCommentIds := []\<rparr>)"
    by (rule T[THEN conjunct2, THEN conjunct2, THEN conjunct2, THEN spec, THEN spec, THEN mp])
       (simp add: h)
  from T have "map thread_id (threads lastRemoved) = map thread_id (threads afterDelete)"
    and "map book (threads lastRemoved) = map book (threads afterDelete)"
    and "map section' (threads lastRemoved) = map section' (threads afterDelete)"
    by (rule conjunct1, rule conjunct2[THEN conjunct1], rule conjunct2[THEN conjunct2, THEN conjunct1])
  with e h deleteComment_afterDelete show ?thesis by (intro conjI) (rule refl | simp)+
qed

section \<open>What each action writes\<close>

lemma postComment_result: "fst (postComment s ft n a b sec txt) = Inr n"
  by (simp add: postComment_def Let_def split: option.splits)

lemma postComment_comments:
  "\<exists>tid. comments (snd (postComment s ft n a b sec txt)) =
     comments s @ [\<lparr>comment_id = n, author = a, body = txt, threadId = tid,
                    parentId = None, reactionIds = []\<rparr>]"
  by (simp add: postComment_def Let_def insertOne_def split: option.splits)

lemma postComment_reactions:
  "reactions (snd (postComment s ft n a b sec txt)) = reactions s"
  by (simp add: postComment_def Let_def split: option.splits)

lemma postComment_threads_new:
  "findOne (\<lambda>t. book t = b \<and> section' t = sec) (threads s) = None \<Longrightarrow>
   threads (snd (postComment s ft n a b sec txt)) =
     updateOne (\<lambda>t. thread_id t = ft) (pushTopLevel n)
       (threads s @ [\<lparr>thread_id = ft, book = b, section' = sec, topLevelCommentIds = []\<rparr>])"
  by (simp add: postComment_def Let_def insertOne_def)

lemma postComment_threads_old:
  "findOne (\<lambda>t. book t = b \<and> section' t = sec) (threads s) = Some t \<Longrightarrow>
   threads (snd (postComment s ft n a b sec txt)) =
     updateOne (\<lambda>t'. thread_id t' = thread_id t) (pushTopLevel n) (threads s)"
  by (simp add: postComment_def Let_def insertOne_def)

lemma reply_missing:
  "findOne (\<lambda>c. comment_id c = parent) (comments s) = None \<Longrightarrow>
   reply s n a parent txt =
     (Inl (NotFound (''Parent comment with ID '' @ parent @ '' not found.'')), s)"
  by (simp add: reply_def)

lemma reply_found:
  "findOne (\<lambda>c. comment_id c = parent) (comments s) = Some pc \<Longrightarrow>
   reply s n a parent txt =
     (Inr n, s\<lparr>comments := comments s @
        [\<lparr>comment_id = n, author = a, body = txt, threadId = threadId pc,
          parentId = Some parent, reactionIds = []\<rparr>]\<rparr>)"
  by (simp add: reply_def insertOne_def)

lemma react_missing:
  "findOne (\<lambda>c. comment_id c = target) (comments s) = None \<Longrightarrow>
   react s n u target ty =
     (Inl (NotFound (''Target comment with ID '' @ target @ '' not found.'')), s)"
  by (simp add: react_def)

lemma react_duplicate:
  "findOne (\<lambda>c. comment_id c = target) (comments s) = Some tc \<Longrightarrow>
   findOne (\<lambda>r. reactor r = u \<and> targetCommentId r = target \<and> type' r = ty) (reactions s)
     = Some ex \<Longrightarrow>
   react s n u target ty =
     (Inl (DuplicateReaction (''User '' @ u @ '' already reacted with type '' @ ty
        @ '' to comment '' @ target @ ''.'')), s)"
  by (simp add: react_def)

lemma react_created:
  "findOne (\<lambda>c. comment_id c = target) (comments s) = Some tc \<Longrightarrow>
   findOne (\<lambda>r. reactor r = u \<and> targetCommentId r = target \<and> type' r = ty) (reactions s)
     = None \<Longrightarrow>
   react s n u target ty =
     (Inr n,
      s\<lparr>reactions := reactions s @
           [\<lparr>reaction_id = n, reactor = u, targetCommentId = target, type' = ty\<rparr>],
        comments := updateOne (\<lambda>c. comment_id c = target) (pushReaction n) (comments s)\<rparr>)"
  by (simp add: react_def Let_def insertOne_def)

subsection \<open>createdBefore\<close>

lemma createdBefore_append:
  "createdBefore (cs @ [n]) \<longleftrightarrow>
     createdBefore cs \<and> (\<forall>c \<in> set cs. parentId c \<noteq> Some (comment_id n))
     \<and> parentId n \<noteq> Some (comment_id n)"
  by (induction cs) auto

lemma createdBefore_filter: "createdBefore cs \<Longrightarrow> createdBefore (filter P cs)"
  by (induction cs) auto

lemma createdBefore_map:
  "(\<And>c. comment_id (f c) = comment_id c) \<Longrightarrow> (\<And>c. parentId (f c) = parentId c) \<Longrightarrow>
   createdBefore (map f cs) = createdBefore cs"
  by (induction cs) auto

lemma updateOne_distinct:
  "distinct (map g xs) \<Longrightarrow>
   updateOne (\<lambda>x. g x = i) f xs = map (\<lambda>x. if g x = i then f x else x) xs"
proof (induction xs)
  case Nil
  then show ?case by simp
next
  case (Cons x xs)
  show ?case
  proof (cases "g x = i")
    case True
    have "g x \<notin> g ` set xs" using Cons.prems by simp
    with True have "\<forall>y \<in> set xs. g y \<noteq> i" by blast
    then have "map (\<lambda>x. if g x = i then f x else x) xs = xs"
      by (induction xs) auto
    with True show ?thesis by simp
  next
    case False
    with Cons show ?thesis by simp
  qed
qed

section \<open>The actions keep the store well formed\<close>

lemma parentsExist_D:
  "parentsExist cs \<Longrightarrow> c \<in> set cs \<Longrightarrow> parentId c = Some p \<Longrightarrow> p \<in> comment_id ` set cs"
  unfolding parentsExist_def by (auto split: option.splits)

lemma parentsExist_I:
  "(\<And>c p. c \<in> set cs \<Longrightarrow> parentId c = Some p \<Longrightarrow> p \<in> comment_id ` set cs)
   \<Longrightarrow> parentsExist cs"
  unfolding parentsExist_def by (auto split: option.splits)

lemma createdBefore_insert:
  assumes "createdBefore cs" and "parentsExist cs"
    and "comment_id n \<notin> comment_id ` set cs" and "parentId n \<noteq> Some (comment_id n)"
  shows "createdBefore (cs @ [n])"
  unfolding createdBefore_append using assms parentsExist_D[OF assms(2)] by metis

lemma parentsExist_insert:
  assumes "parentsExist cs"
    and "\<And>p. parentId n = Some p \<Longrightarrow> p \<in> comment_id ` set cs"
  shows "parentsExist (cs @ [n])"
proof (rule parentsExist_I)
  fix c p assume "c \<in> set (cs @ [n])" and "parentId c = Some p"
  then have "p \<in> comment_id ` set cs"
    using parentsExist_D[OF assms(1)] assms(2) by auto
  then show "p \<in> comment_id ` set (cs @ [n])" by auto
qed

lemma sameThread_insert:
  assumes "sameThreadAsParent cs" and "parentsExist cs"
    and "distinct (map comment_id cs)"
    and "comment_id n \<notin> comment_id ` set cs"
    and "\<And>p. parentId n = Some p \<Longrightarrow>
           \<exists>d \<in> set cs. comment_id d = p \<and> threadId n = threadId d"
  shows "sameThreadAsParent (cs @ [n])"
  unfolding sameThreadAsParent_def
proof (intro ballI impI)
  fix c d assume c: "c \<in> set (cs @ [n])" and d: "d \<in> set (cs @ [n])"
    and p: "parentId c = Some (comment_id d)"
  have inj: "inj_on comment_id (set cs)" using assms(3) by (simp add: distinct_map)
  have din: "d \<in> set cs"
  proof (cases "c = n")
    case True
    with p assms(5) obtain d' where "d' \<in> set cs" "comment_id d' = comment_id d" by blast
    then have "comment_id d \<in> comment_id ` set cs" by (metis imageI)
    with assms(4) have "d \<noteq> n" by auto
    with d show ?thesis by simp
  next
    case False
    with c have "c \<in> set cs" by simp
    from parentsExist_D[OF assms(2) this p] assms(4) d show ?thesis by auto
  qed
  show "threadId c = threadId d"
  proof (cases "c = n")
    case True
    with p assms(5) obtain d' where d': "d' \<in> set cs" "comment_id d' = comment_id d"
      "threadId n = threadId d'" by blast
    from inj_onD[OF inj d'(2) d'(1) din] d'(3) True show ?thesis by simp
  next
    case False
    with c have "c \<in> set cs" by simp
    with din p assms(1) show ?thesis unfolding sameThreadAsParent_def by blast
  qed
qed

lemma reactionsAttached_insert_comment:
  assumes "reactionsAttached s" and "targetsExist s"
    and "comment_id n \<notin> comment_id ` set (comments s)" and "reactionIds n = []"
    and "comments s' = comments s @ [n]" and "reactions s' = reactions s"
  shows "reactionsAttached s'"
  unfolding reactionsAttached_def
proof
  fix c assume "c \<in> set (comments s')"
  then consider "c \<in> set (comments s)" | "c = n" using assms(5) by auto
  then show "set (reactionIds c) =
      reaction_id ` set (findToArray (\<lambda>r. targetCommentId r = comment_id c) (reactions s'))"
  proof cases
    case 1
    with assms(1) show ?thesis unfolding reactionsAttached_def assms(6) by blast
  next
    case 2
    have "findToArray (\<lambda>r. targetCommentId r = comment_id n) (reactions s) = []"
      unfolding findToArray_def filter_empty_conv
      using assms(2,3) unfolding targetsExist_def by metis
    with 2 assms(4) show ?thesis unfolding assms(6) by simp
  qed
qed

lemma targetsExist_more_comments:
  assumes "targetsExist s" and "reactions s' = reactions s"
    and "comment_id ` set (comments s) \<subseteq> comment_id ` set (comments s')"
  shows "targetsExist s'"
  using assms unfolding targetsExist_def by auto

lemma wellFormed_postComment:
  assumes wf: "wellFormed s"
    and ft: "ft \<notin> thread_id ` set (threads s)"
    and fc: "n \<notin> comment_id ` set (comments s)"
  shows "wellFormed (snd (postComment s ft n a b sec txt))"
proof -
  let ?s' = "snd (postComment s ft n a b sec txt)"
  from postComment_comments[of s ft n a b sec "txt"] obtain tid where
    cs: "comments ?s' = comments s @ [\<lparr>comment_id = n, author = a, body = txt,
            threadId = tid, parentId = None, reactionIds = []\<rparr>]" by blast
  let ?new = "\<lparr>comment_id = n, author = a, body = txt,
            threadId = tid, parentId = None, reactionIds = []\<rparr>"
  have rs: "reactions ?s' = reactions s" by (rule postComment_reactions)
  from wf have u: "uniqueIds s" and cb: "createdBefore (comments s)"
    and pe: "parentsExist (comments s)" and te: "targetsExist s"
    and ot: "oneThreadPerSection (threads s)" and st: "sameThreadAsParent (comments s)"
    and ra: "reactionsAttached s"
    unfolding wellFormed_def by simp_all
  have thr: "distinct (map thread_id (threads ?s')) \<and> oneThreadPerSection (threads ?s')"
  proof (cases "findOne (\<lambda>t. book t = b \<and> section' t = sec) (threads s)")
    case None
    then have "(b, sec) \<notin> set (map (\<lambda>t. (book t, section' t)) (threads s))"
      unfolding findOne_None_iff by auto
    with ot ft u show ?thesis
      unfolding postComment_threads_new[OF None] oneThreadPerSection_def uniqueIds_def
      by (simp add: map_updateOne pushTopLevel_def)
  next
    case (Some t)
    with ot u show ?thesis
      unfolding postComment_threads_old[OF Some] oneThreadPerSection_def uniqueIds_def
      by (simp add: map_updateOne pushTopLevel_def)
  qed
  have "uniqueIds ?s'"
    using u fc thr unfolding uniqueIds_def cs rs by simp
  moreover have "createdBefore (comments ?s')"
    unfolding cs using cb pe fc by (intro createdBefore_insert) simp_all
  moreover have "parentsExist (comments ?s')"
    unfolding cs using pe by (intro parentsExist_insert) simp_all
  moreover have "targetsExist ?s'"
    using te rs by (rule targetsExist_more_comments) (auto simp: cs)
  moreover have "sameThreadAsParent (comments ?s')"
    unfolding cs using st pe u fc unfolding uniqueIds_def by (intro sameThread_insert) simp_all
  moreover have "reactionsAttached ?s'"
    using ra te _ _ cs rs by (rule reactionsAttached_insert_comment) (simp_all add: fc)
  ultimately show ?thesis using thr unfolding wellFormed_def by simp
qed

lemma wellFormed_reply:
  assumes wf: "wellFormed s"
    and fc: "n \<notin> comment_id ` set (comments s)"
  shows "wellFormed (snd (reply s n a parent txt))"
proof (cases "findOne (\<lambda>c. comment_id c = parent) (comments s)")
  case None
  with wf show ?thesis by (simp add: reply_missing)
next
  case (Some pc)
  let ?new = "\<lparr>comment_id = n, author = a, body = txt, threadId = threadId pc,
          parentId = Some parent, reactionIds = []\<rparr>"
  let ?s' = "s\<lparr>comments := comments s @ [?new]\<rparr>"
  have eq: "snd (reply s n a parent txt) = ?s'" by (simp add: reply_found[OF Some])
  from findOne_Some_mem[OF Some] have pc: "pc \<in> set (comments s)" "comment_id pc = parent"
    by simp_all
  then have pin: "parent \<in> comment_id ` set (comments s)" by force
  with fc have ne: "parent \<noteq> n" by auto
  from wf have u: "uniqueIds s" and cb: "createdBefore (comments s)"
    and pe: "parentsExist (comments s)" and te: "targetsExist s"
    and ot: "oneThreadPerSection (threads s)" and st: "sameThreadAsParent (comments s)"
    and ra: "reactionsAttached s"
    unfolding wellFormed_def by simp_all
  have "uniqueIds ?s'"
    using u fc unfolding uniqueIds_def by simp
  moreover have "createdBefore (comments ?s')"
    using cb pe fc ne by (simp add: createdBefore_insert)
  moreover have "parentsExist (comments ?s')"
  proof -
    have "parentsExist (comments s @ [?new])"
    proof (rule parentsExist_insert[OF pe])
      fix p assume "parentId ?new = Some p"
      then show "p \<in> comment_id ` set (comments s)" using pin by simp
    qed
    then show ?thesis by simp
  qed
  moreover have "targetsExist ?s'"
    using te by (rule targetsExist_more_comments) auto
  moreover have "sameThreadAsParent (comments ?s')"
  proof -
    have "sameThreadAsParent (comments s @ [?new])"
      using st pe
    proof (rule sameThread_insert)
      show "distinct (map comment_id (comments s))" using u unfolding uniqueIds_def by simp
      show "comment_id ?new \<notin> comment_id ` set (comments s)" using fc by simp
      show "\<exists>d \<in> set (comments s). comment_id d = p \<and> threadId ?new = threadId d"
        if "parentId ?new = Some p" for p using that pc by auto
    qed
    then show ?thesis by simp
  qed
  moreover have "reactionsAttached ?s'"
    using ra te by (rule reactionsAttached_insert_comment) (simp_all add: fc)
  ultimately show ?thesis using ot unfolding wellFormed_def eq by simp
qed

lemma wellFormed_react:
  assumes wf: "wellFormed s"
    and fr: "n \<notin> reaction_id ` set (reactions s)"
  shows "wellFormed (snd (react s n u target ty))"
proof (cases "findOne (\<lambda>c. comment_id c = target) (comments s)")
  case None
  with wf show ?thesis by (simp add: react_missing)
next
  case (Some tc)
  show ?thesis
  proof (cases "findOne (\<lambda>r. reactor r = u \<and> targetCommentId r = target \<and> type' r = ty)
      (reactions s)")
    case ex: (Some ex)
    with wf Some show ?thesis by (simp add: react_duplicate)
  next
    case None
    from wf have u: "uniqueIds s" and cb: "createdBefore (comments s)"
      and pe: "parentsExist (comments s)" and te: "targetsExist s"
      and ot: "oneThreadPerSection (threads s)" and st: "sameThreadAsParent (comments s)"
      and ra: "reactionsAttached s"
      unfolding wellFormed_def by simp_all
    let ?f = "\<lambda>c. if comment_id c = target then pushReaction n c else c"
    let ?newR = "\<lparr>reaction_id = n, reactor = u, targetCommentId = target, type' = ty\<rparr>"
    let ?s' = "s\<lparr>reactions := reactions s @ [?newR], comments := map ?f (comments s)\<rparr>"
    have dc: "distinct (map comment_id (comments s))" using u unfolding uniqueIds_def by simp
    have eq: "snd (react s n u target ty) = ?s'"
      by (simp add: react_created[OF Some None] updateOne_distinct[OF dc])
    have fid: "comment_id (?f c) = comment_id c" and fpar: "parentId (?f c) = parentId c"
      and fthr: "threadId (?f c) = threadId c" for c
      by (simp_all add: pushReaction_def)
    have ids: "map comment_id (map ?f (comments s)) = map comment_id (comments s)"
      by (simp add: fid comp_def)
    then have idset: "comment_id ` set (map ?f (comments s)) = comment_id ` set (comments s)"
      by (metis list.set_map)
    from findOne_Some_mem[OF Some] have tin: "target \<in> comment_id ` set (comments s)" by force
    have fid': "(\<lambda>c. comment_id (if comment_id c = target then pushReaction n c else c))
        = comment_id"
      by (auto simp: pushReaction_def)
    have "uniqueIds ?s'"
      using u fr unfolding uniqueIds_def by (simp add: comp_def fid')
    moreover have "createdBefore (comments ?s')"
      using cb createdBefore_map[of ?f "comments s", OF fid fpar] by simp
    moreover have "parentsExist (comments ?s')"
    proof -
      have "parentsExist (map ?f (comments s))"
      proof (rule parentsExist_I)
        fix c p assume "c \<in> set (map ?f (comments s))" and p: "parentId c = Some p"
        then obtain c0 where c0: "c0 \<in> set (comments s)" "c = ?f c0" by auto
        with p fpar[of c0] have "parentId c0 = Some p" by simp
        from parentsExist_D[OF pe c0(1) this] show "p \<in> comment_id ` set (map ?f (comments s))"
          unfolding idset .
      qed
      then show ?thesis by simp
    qed
    moreover have "targetsExist ?s'"
      using te tin idset unfolding targetsExist_def by auto
    moreover have "sameThreadAsParent (comments ?s')"
    proof -
      have "sameThreadAsParent (map ?f (comments s))"
        unfolding sameThreadAsParent_def
      proof (intro ballI impI)
        fix c d assume "c \<in> set (map ?f (comments s))" "d \<in> set (map ?f (comments s))"
          and p: "parentId c = Some (comment_id d)"
        then obtain c0 d0 where cd: "c0 \<in> set (comments s)" "c = ?f c0"
          "d0 \<in> set (comments s)" "d = ?f d0" by auto
        with p fpar[of c0] fid[of d0] have "parentId c0 = Some (comment_id d0)" by simp
        with st cd(1,3) have "threadId c0 = threadId d0"
          unfolding sameThreadAsParent_def by blast
        with cd(2,4) fthr[of c0] fthr[of d0] show "threadId c = threadId d" by simp
      qed
      then show ?thesis by simp
    qed
    moreover have "reactionsAttached ?s'"
      unfolding reactionsAttached_def
    proof
      fix c assume "c \<in> set (comments ?s')"
      then obtain c0 where c0: "c0 \<in> set (comments s)" "c = ?f c0" by auto
      from ra c0(1) have old: "set (reactionIds c0) =
          reaction_id ` set (findToArray (\<lambda>r. targetCommentId r = comment_id c0) (reactions s))"
        unfolding reactionsAttached_def by blast
      show "set (reactionIds c) =
        reaction_id ` set (findToArray (\<lambda>r. targetCommentId r = comment_id c) (reactions ?s'))"
      proof (cases "comment_id c0 = target")
        case True
        with c0(2) have "reactionIds c = reactionIds c0 @ [n]" "comment_id c = target"
          by (simp_all add: pushReaction_def)
        with old True show ?thesis by (simp add: findToArray_def)
      next
        case False
        with c0(2) have "reactionIds c = reactionIds c0" "comment_id c = comment_id c0"
          by simp_all
        with old False show ?thesis by (simp add: findToArray_def)
      qed
    qed
    ultimately show ?thesis using ot unfolding wellFormed_def eq by simp
  qed
qed

lemma map_key_pullTopLevel:
  "map (\<lambda>t. (book t, section' t)) (updateOne P (pullTopLevel c) ts) =
   map (\<lambda>t. (book t, section' t)) ts"
  by (rule map_updateOne) (simp add: pullTopLevel_def)

lemma descendants_closed:
  "c \<in> set cs \<Longrightarrow> parentId c = Some p \<Longrightarrow> p \<in> descendants cs t \<Longrightarrow>
   comment_id c \<in> descendants cs t"
  by (rule descendants.collect)

lemma wellFormed_deleteComment:
  assumes wf: "wellFormed s"
    and del: "deleteComment s requestor target = Some (res, s')"
  shows "wellFormed s'"
proof (cases res)
  case (Inl e)
  with del have "s' = s"
    by (auto simp: deleteComment_def Let_def split: option.splits if_splits)
  with wf show ?thesis by simp
next
  case (Inr x)
  with del have del': "deleteComment s requestor target = Some (Inr (), s')" by simp
  let ?D = "descendants (comments s) target"
  from deleteComment_success[OF del']
  have cs: "comments s' = filter (\<lambda>c. comment_id c \<notin> ?D) (comments s)"
    and rs: "reactions s' = filter (\<lambda>r. targetCommentId r \<notin> ?D) (reactions s)"
    by auto
  from deleteComment_threads[OF del]
  have ts: "map thread_id (threads s') = map thread_id (threads s)"
    "map book (threads s') = map book (threads s)"
    "map section' (threads s') = map section' (threads s)"
    by (auto simp: map_pullTopLevel)
  from wf have u: "uniqueIds s" and cb: "createdBefore (comments s)"
    and pe: "parentsExist (comments s)" and te: "targetsExist s"
    and ot: "oneThreadPerSection (threads s)" and st: "sameThreadAsParent (comments s)"
    and ra: "reactionsAttached s"
    unfolding wellFormed_def by simp_all
  have "uniqueIds s'"
    using u ts(1) unfolding uniqueIds_def cs rs by (simp add: distinct_map_filter)
  moreover have "createdBefore (comments s')"
    unfolding cs using cb by (rule createdBefore_filter)
  moreover have "parentsExist (comments s')"
  proof (rule parentsExist_I)
    fix c p assume "c \<in> set (comments s')" and p: "parentId c = Some p"
    then have c: "c \<in> set (comments s)" "comment_id c \<notin> ?D" unfolding cs by auto
    from parentsExist_D[OF pe c(1) p] obtain d where d: "d \<in> set (comments s)" "comment_id d = p"
      by auto
    have "p \<notin> ?D" using descendants_closed[OF c(1) p] c(2) by blast
    with d show "p \<in> comment_id ` set (comments s')" unfolding cs by force
  qed
  moreover have "targetsExist s'"
    unfolding targetsExist_def
  proof
    fix r assume "r \<in> set (reactions s')"
    then have r: "r \<in> set (reactions s)" "targetCommentId r \<notin> ?D" unfolding rs by auto
    with te obtain d where "d \<in> set (comments s)" "comment_id d = targetCommentId r"
      unfolding targetsExist_def by force
    with r(2) show "targetCommentId r \<in> comment_id ` set (comments s')" unfolding cs by force
  qed
  moreover have "oneThreadPerSection (threads s')"
  proof -
    from deleteComment_threads[OF del]
    have "map (\<lambda>t. (book t, section' t)) (threads s') =
        map (\<lambda>t. (book t, section' t)) (threads s)"
      by (auto simp: map_key_pullTopLevel)
    then show ?thesis using ot unfolding oneThreadPerSection_def by simp
  qed
  moreover have "sameThreadAsParent (comments s')"
    using st unfolding sameThreadAsParent_def cs by auto
  moreover have "reactionsAttached s'"
    unfolding reactionsAttached_def
  proof
    fix c assume "c \<in> set (comments s')"
    then have c: "c \<in> set (comments s)" "comment_id c \<notin> ?D" unfolding cs by auto
    have "findToArray (\<lambda>r. targetCommentId r = comment_id c) (reactions s') =
          findToArray (\<lambda>r. targetCommentId r = comment_id c) (reactions s)"
      unfolding findToArray_def rs filter_filter using c(2) by (intro filter_cong) auto
    with ra c(1) show "set (reactionIds c) =
        reaction_id ` set (findToArray (\<lambda>r. targetCommentId r = comment_id c) (reactions s'))"
      unfolding reactionsAttached_def by simp
  qed
  ultimately show ?thesis unfolding wellFormed_def by simp
qed

lemma wellFormed_emptyState: "wellFormed emptyState"
  by (simp add: wellFormed_def emptyState_def uniqueIds_def parentsExist_def targetsExist_def
      oneThreadPerSection_def sameThreadAsParent_def reactionsAttached_def)

lemma reachable_wellFormed: "reachable s \<Longrightarrow> wellFormed s"
proof (induction rule: reachable.induct)
  case initial
  show ?case by (rule wellFormed_emptyState)
next
  case (posted s freshThread newCommentId a b sec bd)
  from posted.IH posted.hyps(2,3) show ?case by (rule wellFormed_postComment)
next
  case (replied s newCommentId a parent bd)
  from replied.IH replied.hyps(2) show ?case by (rule wellFormed_reply)
next
  case (reacted s newReactionId u target ty)
  from reacted.IH reacted.hyps(2) show ?case by (rule wellFormed_react)
next
  case (deleted s requestor target res s')
  from deleted.IH deleted.hyps(2) show ?case by (rule wellFormed_deleteComment)
qed

section \<open>The loop visits each descendant once\<close>

lemma queueWeight_step:
  "createdBefore cs \<Longrightarrow>
   queueWeight cs (rest @ directChildren cs cur) < queueWeight cs (cur # rest)"
  using subtreeSize_unfold[of cs cur] by (simp add: queueWeight_def)

lemma collectLoop_Cons:
  "collectLoop cs acc (cur # rest) =
   collectLoop cs (acc @ directChildren cs cur) (rest @ directChildren cs cur)"
  by (subst collectLoop.simps) simp

lemma collectVisited_Cons:
  "collectVisited cs v (cur # rest) =
   collectVisited cs (v @ [cur]) (rest @ directChildren cs cur)"
  by (subst collectVisited.simps) simp

lemma collectVisited_eq_collectLoop:
  assumes "createdBefore cs"
  shows "acc = v @ queue \<Longrightarrow> collectVisited cs v queue = collectLoop cs acc queue"
proof (induction "queueWeight cs queue" arbitrary: acc v queue rule: less_induct)
  case less
  show ?case
  proof (cases queue)
    case Nil
    with less.prems show ?thesis
      by (simp add: collectLoop.simps collectVisited.simps)
  next
    case (Cons cur rest)
    let ?ch = "directChildren cs cur"
    have "queueWeight cs (rest @ ?ch) < queueWeight cs queue"
      unfolding Cons using assms by (rule queueWeight_step)
    moreover have "acc @ ?ch = (v @ [cur]) @ (rest @ ?ch)"
      using less.prems Cons by simp
    ultimately have "collectVisited cs (v @ [cur]) (rest @ ?ch) =
        collectLoop cs (acc @ ?ch) (rest @ ?ch)"
      by (rule less.hyps)
    then show ?thesis unfolding Cons collectLoop_Cons collectVisited_Cons .
  qed
qed

lemma child_smaller:
  assumes "createdBefore cs" and "c \<in> set (directChildren cs p)"
  shows "subtreeSize cs c < subtreeSize cs p"
proof -
  have "subtreeSize cs c \<in> set (map (subtreeSize cs) (directChildren cs p))"
    using assms(2) by simp
  then have "subtreeSize cs c \<le> queueWeight cs (directChildren cs p)"
    unfolding queueWeight_def by (rule member_le_sum_list) simp
  then show ?thesis using subtreeSize_unfold[OF assms(1), of p] by simp
qed

lemma descendant_not_larger:
  assumes "createdBefore cs" and "x \<in> descendants cs t"
  shows "subtreeSize cs x \<le> subtreeSize cs t"
  using assms(2)
proof (induction rule: descendants.induct)
  case start
  show ?case by simp
next
  case (collect p c)
  then have "comment_id c \<in> set (directChildren cs p)"
    by (auto simp: set_directChildren)
  from child_smaller[OF assms(1) this] collect.IH show ?case by simp
qed

lemma target_not_child:
  assumes "createdBefore cs" and "x \<in> descendants cs t"
  shows "t \<notin> set (directChildren cs x)"
  using child_smaller[OF assms(1), of t x] descendant_not_larger[OF assms] by auto

lemma one_parent:
  assumes "distinct (map comment_id cs)"
    and "x \<in> set (directChildren cs p)" and "x \<in> set (directChildren cs p')"
  shows "p = p'"
proof -
  from assms(2,3) obtain c c' where c: "c \<in> set cs" "parentId c = Some p" "comment_id c = x"
    and c': "c' \<in> set cs" "parentId c' = Some p'" "comment_id c' = x"
    by (auto simp: set_directChildren)
  have "inj_on comment_id (set cs)" using assms(1) by (simp add: distinct_map)
  from inj_onD[OF this _ c(1) c'(1)] c(3) c'(3) have "c = c'" by simp
  with c(2) c'(2) show ?thesis by simp
qed

lemma distinct_directChildren:
  "distinct (map comment_id cs) \<Longrightarrow> distinct (directChildren cs p)"
  unfolding directChildren_def findToArray_def by (rule distinct_map_filter)

lemma collectLoop_distinct:
  assumes cb: "createdBefore cs" and dc: "distinct (map comment_id cs)"
  shows "acc = done @ queue \<Longrightarrow> distinct acc \<Longrightarrow> set acc \<subseteq> descendants cs t \<Longrightarrow>
     (\<forall>x \<in> set acc. x = t \<or> (\<exists>p \<in> set done. x \<in> set (directChildren cs p))) \<Longrightarrow>
     collectLoop cs acc queue = Some r \<Longrightarrow> distinct r"
proof (induction "queueWeight cs queue" arbitrary: acc "done" queue rule: less_induct)
  case less
  show ?case
  proof (cases queue)
    case Nil
    with less.prems show ?thesis by (simp add: collectLoop.simps)
  next
    case (Cons cur rest)
    let ?ch = "directChildren cs cur"
    have w: "queueWeight cs (rest @ ?ch) < queueWeight cs queue"
      unfolding Cons using cb by (rule queueWeight_step)
    have acc: "acc = done @ cur # rest" using less.prems(1) Cons by simp
    have curD: "cur \<in> descendants cs t" using less.prems(3) acc by auto
    have cur_fresh: "cur \<notin> set done" using less.prems(2) acc by auto
    have disj: "x \<notin> set ?ch" if "x \<in> set acc" for x
    proof
      assume xc: "x \<in> set ?ch"
      from less.prems(4) that consider "x = t" | p where "p \<in> set done" "x \<in> set (directChildren cs p)"
        by blast
      then show False
      proof cases
        case 1
        with xc target_not_child[OF cb curD] show False by simp
      next
        case 2
        from one_parent[OF dc xc 2(2)] 2(1) cur_fresh show False by simp
      qed
    qed
    have 1: "acc @ ?ch = (done @ [cur]) @ (rest @ ?ch)" using acc by simp
    have 2: "distinct (acc @ ?ch)"
      using less.prems(2) distinct_directChildren[OF dc, of cur] disj by auto
    have 3: "set (acc @ ?ch) \<subseteq> descendants cs t"
      using less.prems(3) descendants_child[of _ cs cur] descendants_trans[OF _ curD] by auto
    have 4: "\<forall>x \<in> set (acc @ ?ch). x = t \<or> (\<exists>p \<in> set (done @ [cur]). x \<in> set (directChildren cs p))"
      using less.prems(4) by auto
    have 5: "collectLoop cs (acc @ ?ch) (rest @ ?ch) = Some r"
      using less.prems(5) unfolding Cons collectLoop_Cons .
    from less.hyps[OF w 1 2 3 4 5] show ?thesis .
  qed
qed

lemma collectLoop_total:
  assumes cb: "createdBefore cs" and dc: "distinct (map comment_id cs)"
  shows "\<exists>r. collectLoop cs [t] [t] = Some r \<and> collectVisited cs [] [t] = Some r
     \<and> distinct r \<and> set r = descendants cs t"
proof -
  from collectLoop_terminates[OF cb, of "[t]" "[t]"] obtain r where
    r: "collectLoop cs [t] [t] = Some r" by blast
  have "collectVisited cs [] [t] = collectLoop cs [t] [t]"
    using cb by (rule collectVisited_eq_collectLoop) simp
  moreover have "distinct r"
    using cb dc _ _ _ _ r
  proof (rule collectLoop_distinct)
    show "[t] = [] @ [t]" by simp
    show "distinct [t]" by simp
    show "set [t] \<subseteq> descendants cs t" by (simp add: descendants.start)
    show "\<forall>x \<in> set [t]. x = t \<or> (\<exists>p \<in> set []. x \<in> set (directChildren cs p))" by simp
  qed
  ultimately show ?thesis using r collectLoop_descendants[OF r] by simp
qed

section \<open>The scenario is reachable\<close>

lemma scenario_built:
  "scenario =
     snd (postComment
       (snd (react
         (snd (react
           (snd (react
             (snd (reply
               (snd (postComment emptyState ''T1'' ''A'' ''alice'' ''B1'' ''S1'' ''first''))
               ''R'' ''bob'' ''A'' ''answer''))
             ''r1'' ''bob'' ''A'' ''like''))
           ''r2'' ''bob'' ''A'' ''love''))
         ''r3'' ''alice'' ''A'' ''like''))
       ''T2'' ''C'' ''bob'' ''B1'' ''S1'' ''second'')"
  by (simp add: scenario_def emptyState_def postComment_def reply_def react_def findOne_def
      insertOne_def pushTopLevel_def pushReaction_def Let_def)

lemma reachable_scenario: "reachable scenario"
  unfolding scenario_built
  by (intro reachable.intros)
     (simp_all add: emptyState_def postComment_def reply_def react_def findOne_def
      insertOne_def pushTopLevel_def pushReaction_def Let_def)

section \<open>react\<close>

lemma findOne_append:
  "findOne P (xs @ ys) = (case findOne P xs of Some x \<Rightarrow> Some x | None \<Rightarrow> findOne P ys)"
  by (induction xs) (auto simp: findOne_def)

lemma updateOne_append_miss:
  "\<forall>x \<in> set xs. \<not> P x \<Longrightarrow> updateOne P f (xs @ ys) = xs @ updateOne P f ys"
  by (induction xs) auto

lemma findOne_pushReaction:
  "findOne (\<lambda>c. comment_id c = i) (updateOne (\<lambda>c. comment_id c = i) (pushReaction r) cs) =
   map_option (pushReaction r) (findOne (\<lambda>c. comment_id c = i) cs)"
  by (rule findOne_updateOne) (simp add: pushReaction_def)

text \<open>
  C3. \<open>react\<close> checks in this order. When the target does not resolve to a comment it
  fails with \<open>NotFound\<close>. When the target resolves and a reaction with exactly the
  triple (reactor, target, type) exists it fails with \<open>DuplicateReaction\<close>; in a
  reachable state a reaction's target always resolves, so there an existing triple always
  gives \<open>DuplicateReaction\<close>. When the target resolves and every existing reaction
  differs from the triple in at least one component, it inserts the reaction, appends its
  id to the reaction-id list of the target comment and returns the id; a second call with
  the same triple then fails with \<open>DuplicateReaction\<close> and changes nothing. Both
  failures leave the state unchanged.
\<close>

theorem react_checks_then_attaches:
  "(findOne (\<lambda>c. comment_id c = target) (comments s) = None \<longrightarrow>
      react s n u target ty =
        (Inl (NotFound (''Target comment with ID '' @ target @ '' not found.'')), s))
   \<and> (\<forall>tc ex. findOne (\<lambda>c. comment_id c = target) (comments s) = Some tc
         \<and> findOne (\<lambda>r. reactor r = u \<and> targetCommentId r = target \<and> type' r = ty)
              (reactions s) = Some ex \<longrightarrow>
      react s n u target ty =
        (Inl (DuplicateReaction (''User '' @ u @ '' already reacted with type '' @ ty
           @ '' to comment '' @ target @ ''.'')), s))
   \<and> (\<forall>tc. findOne (\<lambda>c. comment_id c = target) (comments s) = Some tc
         \<and> (\<forall>r \<in> set (reactions s).
               reactor r \<noteq> u \<or> targetCommentId r \<noteq> target \<or> type' r \<noteq> ty) \<longrightarrow>
      react s n u target ty =
        (Inr n,
         s\<lparr>reactions := reactions s @
              [\<lparr>reaction_id = n, reactor = u, targetCommentId = target, type' = ty\<rparr>],
           comments := updateOne (\<lambda>c. comment_id c = target) (pushReaction n) (comments s)\<rparr>)
      \<and> findOne (\<lambda>c. comment_id c = target) (comments (snd (react s n u target ty))) =
          Some (tc\<lparr>reactionIds := reactionIds tc @ [n]\<rparr>)
      \<and> (\<forall>n2. react (snd (react s n u target ty)) n2 u target ty =
            (Inl (DuplicateReaction (''User '' @ u @ '' already reacted with type '' @ ty
               @ '' to comment '' @ target @ ''.'')), snd (react s n u target ty))))
   \<and> (reachable s \<longrightarrow>
        (\<forall>ex. findOne (\<lambda>r. reactor r = u \<and> targetCommentId r = target \<and> type' r = ty)
               (reactions s) = Some ex \<longrightarrow>
          react s n u target ty =
            (Inl (DuplicateReaction (''User '' @ u @ '' already reacted with type '' @ ty
               @ '' to comment '' @ target @ ''.'')), s)))"
proof (intro conjI allI impI)
  assume "findOne (\<lambda>c. comment_id c = target) (comments s) = None"
  then show "react s n u target ty =
        (Inl (NotFound (''Target comment with ID '' @ target @ '' not found.'')), s)"
    by (rule react_missing)
next
  fix tc ex
  assume "findOne (\<lambda>c. comment_id c = target) (comments s) = Some tc
         \<and> findOne (\<lambda>r. reactor r = u \<and> targetCommentId r = target \<and> type' r = ty)
              (reactions s) = Some ex"
  then show "react s n u target ty =
        (Inl (DuplicateReaction (''User '' @ u @ '' already reacted with type '' @ ty
           @ '' to comment '' @ target @ ''.'')), s)"
    using react_duplicate by blast
next
  fix tc
  assume h: "findOne (\<lambda>c. comment_id c = target) (comments s) = Some tc
         \<and> (\<forall>r \<in> set (reactions s).
               reactor r \<noteq> u \<or> targetCommentId r \<noteq> target \<or> type' r \<noteq> ty)"
  then have tc: "findOne (\<lambda>c. comment_id c = target) (comments s) = Some tc"
    and none: "findOne (\<lambda>r. reactor r = u \<and> targetCommentId r = target \<and> type' r = ty)
              (reactions s) = None"
    unfolding findOne_None_iff by auto
  let ?new = "\<lparr>reaction_id = n, reactor = u, targetCommentId = target, type' = ty\<rparr>"
  let ?s' = "s\<lparr>reactions := reactions s @ [?new],
           comments := updateOne (\<lambda>c. comment_id c = target) (pushReaction n) (comments s)\<rparr>"
  show eq: "react s n u target ty = (Inr n, ?s')"
    using tc none by (rule react_created)
  have found: "findOne (\<lambda>c. comment_id c = target) (comments ?s') = Some (pushReaction n tc)"
    by (simp add: findOne_pushReaction tc)
  then show "findOne (\<lambda>c. comment_id c = target) (comments (snd (react s n u target ty))) =
          Some (tc\<lparr>reactionIds := reactionIds tc @ [n]\<rparr>)"
    unfolding eq by (simp add: pushReaction_def)
  fix n2
  have "findOne (\<lambda>r. reactor r = u \<and> targetCommentId r = target \<and> type' r = ty)
      (reactions ?s') = Some ?new"
    by (simp add: findOne_append none) (simp add: findOne_def)
  from react_duplicate[OF found this]
  show "react (snd (react s n u target ty)) n2 u target ty =
            (Inl (DuplicateReaction (''User '' @ u @ '' already reacted with type '' @ ty
               @ '' to comment '' @ target @ ''.'')), snd (react s n u target ty))"
    unfolding eq by simp
next
  fix ex
  assume r: "reachable s"
    and ex: "findOne (\<lambda>r. reactor r = u \<and> targetCommentId r = target \<and> type' r = ty)
               (reactions s) = Some ex"
  from findOne_Some_mem[OF ex] have "ex \<in> set (reactions s)" "targetCommentId ex = target"
    by simp_all
  moreover from reachable_wellFormed[OF r] have "targetsExist s"
    unfolding wellFormed_def by simp
  ultimately have "target \<in> comment_id ` set (comments s)"
    unfolding targetsExist_def by blast
  then have "findOne (\<lambda>c. comment_id c = target) (comments s) \<noteq> None"
    unfolding findOne_None_iff by auto
  then obtain tc where "findOne (\<lambda>c. comment_id c = target) (comments s) = Some tc" by blast
  from react_duplicate[OF this ex]
  show "react s n u target ty =
            (Inl (DuplicateReaction (''User '' @ u @ '' already reacted with type '' @ ty
               @ '' to comment '' @ target @ ''.'')), s)" .
qed

theorem react_checks_then_attaches_witness:
  "findOne (\<lambda>c. comment_id c = ''Z'') (comments scenario) = None
   \<and> react scenario ''r9'' ''bob'' ''Z'' ''like'' =
        (Inl (NotFound ''Target comment with ID Z not found.''), scenario)
   \<and> reachable scenario
   \<and> findOne (\<lambda>c. comment_id c = ''A'') (comments scenario) = Some (hd (comments scenario))
   \<and> findOne (\<lambda>r. reactor r = ''bob'' \<and> targetCommentId r = ''A'' \<and> type' r = ''like'')
        (reactions scenario) = Some (hd (reactions scenario))
   \<and> react scenario ''r9'' ''bob'' ''A'' ''like'' =
        (Inl (DuplicateReaction ''User bob already reacted with type like to comment A.''),
         scenario)
   \<and> findOne (\<lambda>r. reactor r = ''alice'' \<and> targetCommentId r = ''A'' \<and> type' r = ''love'')
        (reactions scenario) = None
   \<and> fst (react scenario ''r9'' ''alice'' ''A'' ''love'') = Inr ''r9''
   \<and> findOne (\<lambda>c. comment_id c = ''A'')
        (comments (snd (react scenario ''r9'' ''alice'' ''A'' ''love''))) =
        Some ((hd (comments scenario))\<lparr>reactionIds := [''r1'', ''r2'', ''r3'', ''r9'']\<rparr>)
   \<and> fst (react (snd (react scenario ''r9'' ''alice'' ''A'' ''love''))
          ''r10'' ''alice'' ''A'' ''love'') =
        Inl (DuplicateReaction ''User alice already reacted with type love to comment A.'')"
proof -
  have z: "findOne (\<lambda>c. comment_id c = ''Z'') (comments scenario) = None"
    by (simp add: findOne_def scenario_def)
  have d: "findOne (\<lambda>r. reactor r = ''bob'' \<and> targetCommentId r = ''A'' \<and> type' r = ''like'')
        (reactions scenario) = Some (hd (reactions scenario))"
    by (simp add: findOne_def scenario_def)
  have f: "\<forall>r \<in> set (reactions scenario).
         reactor r \<noteq> ''alice'' \<or> targetCommentId r \<noteq> ''A'' \<or> type' r \<noteq> ''love''"
    by (simp add: scenario_def)
  have ids: "reactionIds (hd (comments scenario)) = [''r1'', ''r2'', ''r3'']"
    by (simp add: scenario_def)
  note T1 = react_checks_then_attaches[of "''Z''" scenario "''r9''" "''bob''" "''like''",
      THEN conjunct1, THEN mp, OF z]
  note T2 = react_checks_then_attaches[of "''A''" scenario "''r9''" "''bob''" "''like''",
      THEN conjunct2, THEN conjunct1, THEN spec, THEN spec, THEN mp, OF conjI, OF A_found d]
  note T2' = react_checks_then_attaches[of "''A''" scenario "''r9''" "''bob''" "''like''",
      THEN conjunct2, THEN conjunct2, THEN conjunct2, THEN mp, OF reachable_scenario,
      THEN spec, THEN mp, OF d]
  note T3 = react_checks_then_attaches[of "''A''" scenario "''r9''" "''alice''" "''love''",
      THEN conjunct2, THEN conjunct2, THEN conjunct1, THEN spec, THEN mp, OF conjI, OF A_found f]
  from T3[THEN conjunct1] have a: "fst (react scenario ''r9'' ''alice'' ''A'' ''love'') = Inr ''r9''"
    by simp
  from T3[THEN conjunct2, THEN conjunct1] have b: "findOne (\<lambda>c. comment_id c = ''A'')
        (comments (snd (react scenario ''r9'' ''alice'' ''A'' ''love''))) =
        Some ((hd (comments scenario))\<lparr>reactionIds := [''r1'', ''r2'', ''r3'', ''r9'']\<rparr>)"
    unfolding ids by simp
  from T3[THEN conjunct2, THEN conjunct2] have "react (snd (react scenario ''r9'' ''alice'' ''A'' ''love''))
          ''r10'' ''alice'' ''A'' ''love'' =
        (Inl (DuplicateReaction (''User '' @ ''alice'' @ '' already reacted with type '' @ ''love''
               @ '' to comment '' @ ''A'' @ ''.'')), snd (react scenario ''r9'' ''alice'' ''A'' ''love''))"
    by blast
  then have c: "fst (react (snd (react scenario ''r9'' ''alice'' ''A'' ''love''))
          ''r10'' ''alice'' ''A'' ''love'') =
        Inl (DuplicateReaction ''User alice already reacted with type love to comment A.'')"
    by simp
  from T1 have t1: "react scenario ''r9'' ''bob'' ''Z'' ''like'' =
        (Inl (NotFound ''Target comment with ID Z not found.''), scenario)" by simp
  from T2 T2' have t2: "react scenario ''r9'' ''bob'' ''A'' ''like'' =
        (Inl (DuplicateReaction ''User bob already reacted with type like to comment A.''),
         scenario)" by simp
  have f': "findOne (\<lambda>r. reactor r = ''alice'' \<and> targetCommentId r = ''A'' \<and> type' r = ''love'')
        (reactions scenario) = None"
    by (simp add: findOne_def scenario_def)
  from z t1 reachable_scenario A_found d t2 f' a b c show ?thesis by (intro conjI)
qed

section \<open>Reachable states\<close>

text \<open>
  C6. In every reachable state no comment's parent is itself or a later comment of the
  collection and every parent exists, so parents were created strictly earlier. There
  the worklist loop started by \<open>deleteComment\<close> returns; the ids it dequeues are, in
  order, its result \<^verbatim>\<open>commentsToDelete\<close>; no id occurs twice in it, and its ids are
  exactly the descendant set of the target. So \<open>deleteComment\<close> itself returns.
\<close>

theorem worklist_loop_terminates:
  assumes "reachable s"
  shows "createdBefore (comments s) \<and> parentsExist (comments s)
     \<and> (\<exists>r. collectLoop (comments s) [target] [target] = Some r
            \<and> collectVisited (comments s) [] [target] = Some r
            \<and> distinct r \<and> set r = descendants (comments s) target)
     \<and> (\<exists>res s'. deleteComment s requestor target = Some (res, s'))"
proof -
  from reachable_wellFormed[OF assms]
  have cb: "createdBefore (comments s)" and pe: "parentsExist (comments s)"
    and dc: "distinct (map comment_id (comments s))"
    unfolding wellFormed_def uniqueIds_def by simp_all
  from collectLoop_total[OF cb dc, of target] obtain r where
    r: "collectLoop (comments s) [target] [target] = Some r"
      "collectVisited (comments s) [] [target] = Some r"
      "distinct r" "set r = descendants (comments s) target" by blast
  have "\<exists>res s'. deleteComment s requestor target = Some (res, s')"
    unfolding deleteComment_def using r(1)
    by (simp add: Let_def split: option.splits)
  with cb pe r show ?thesis by blast
qed

theorem worklist_loop_terminates_witness:
  "reachable scenario
   \<and> collectLoop (comments scenario) [''A''] [''A''] = Some [''A'', ''R'']
   \<and> (\<exists>r. collectLoop (comments scenario) [''A''] [''A''] = Some r
            \<and> collectVisited (comments scenario) [] [''A''] = Some r
            \<and> distinct r \<and> set r = descendants (comments scenario) ''A'')
   \<and> (\<exists>res s'. deleteComment scenario ''alice'' ''A'' = Some (res, s'))"
proof -
  have "collectLoop (comments scenario) [''A''] [''A''] = Some [''A'', ''R'']"
    by (simp add: collectLoop.simps scenario_def directChildren_def findToArray_def)
  with worklist_loop_terminates[OF reachable_scenario, of "''A''" "''alice''"] reachable_scenario
  show ?thesis by blast
qed

text \<open>
  C10. In every reachable state, the ids in the reaction-id list of an existing comment
  are exactly the ids of the reaction documents whose target is that comment.
\<close>

theorem reaction_ids_match_reactions:
  assumes "reachable s" and "c \<in> set (comments s)"
  shows "set (reactionIds c) =
     {reaction_id r | r. r \<in> set (reactions s) \<and> targetCommentId r = comment_id c}"
proof -
  from reachable_wellFormed[OF assms(1)] have "reactionsAttached s"
    unfolding wellFormed_def by simp
  with assms(2) have "set (reactionIds c) =
      reaction_id ` set (findToArray (\<lambda>r. targetCommentId r = comment_id c) (reactions s))"
    unfolding reactionsAttached_def by blast
  then show ?thesis unfolding findToArray_def by auto
qed

theorem reaction_ids_match_reactions_witness:
  "reachable scenario \<and> hd (comments scenario) \<in> set (comments scenario)
   \<and> reactionIds (hd (comments scenario)) = [''r1'', ''r2'', ''r3'']
   \<and> {''r1'', ''r2'', ''r3''} =
     {reaction_id r | r. r \<in> set (reactions scenario)
        \<and> targetCommentId r = comment_id (hd (comments scenario))}"
proof -
  have m: "hd (comments scenario) \<in> set (comments scenario)" by (simp add: scenario_def)
  have i: "reactionIds (hd (comments scenario)) = [''r1'', ''r2'', ''r3'']"
    by (simp add: scenario_def)
  from reaction_ids_match_reactions[OF reachable_scenario m] i
  have "{''r1'', ''r2'', ''r3''} =
     {reaction_id r | r. r \<in> set (reactions scenario)
        \<and> targetCommentId r = comment_id (hd (comments scenario))}" by simp
  with reachable_scenario m i show ?thesis by blast
qed

section \<open>reply\<close>

lemma sameThread_reply:
  assumes st: "sameThreadAsParent (comments s)" and pe: "parentsExist (comments s)"
    and dc: "distinct (map comment_id (comments s))"
    and fc: "n \<notin> comment_id ` set (comments s)"
  shows "sameThreadAsParent (comments (snd (reply s n a parent bd)))"
proof (cases "findOne (\<lambda>c. comment_id c = parent) (comments s)")
  case None
  with st show ?thesis by (simp add: reply_missing)
next
  case (Some pc)
  let ?new = "\<lparr>comment_id = n, author = a, body = bd, threadId = threadId pc,
          parentId = Some parent, reactionIds = []\<rparr>"
  from findOne_Some_mem[OF Some] have pc: "pc \<in> set (comments s)" "comment_id pc = parent"
    by simp_all
  have "sameThreadAsParent (comments s @ [?new])"
    using st pe dc
  proof (rule sameThread_insert)
    show "comment_id ?new \<notin> comment_id ` set (comments s)" using fc by simp
    show "\<exists>d \<in> set (comments s). comment_id d = p \<and> threadId ?new = threadId d"
      if "parentId ?new = Some p" for p using that pc by auto
  qed
  then show ?thesis by (simp add: reply_found[OF Some])
qed

text \<open>
  C4. \<open>reply\<close> fails with \<open>NotFound\<close>, changing nothing, when the parent does not
  resolve to a comment. Otherwise it returns the new id and the only change to the state
  is one comment appended, whose \<open>threadId\<close> is the parent's and whose \<open>parentId\<close> is
  the parent; no thread is touched. The call preserves the invariant that every comment
  whose parent is set is in its parent's thread, however deep the parent is nested,
  given unique comment ids, no dangling parent and a fresh id; every reachable state
  has the invariant.
\<close>

theorem reply_joins_parent_thread:
  "(findOne (\<lambda>c. comment_id c = parent) (comments s) = None \<longrightarrow>
      reply s n a parent bd =
        (Inl (NotFound (''Parent comment with ID '' @ parent @ '' not found.'')), s))
   \<and> (\<forall>pc. findOne (\<lambda>c. comment_id c = parent) (comments s) = Some pc \<longrightarrow>
      reply s n a parent bd =
        (Inr n, s\<lparr>comments := comments s @
           [\<lparr>comment_id = n, author = a, body = bd, threadId = threadId pc,
             parentId = Some parent, reactionIds = []\<rparr>]\<rparr>))
   \<and> threads (snd (reply s n a parent bd)) = threads s
   \<and> (sameThreadAsParent (comments s) \<and> parentsExist (comments s)
        \<and> distinct (map comment_id (comments s))
        \<and> n \<notin> comment_id ` set (comments s) \<longrightarrow>
        sameThreadAsParent (comments (snd (reply s n a parent bd))))
   \<and> (reachable s \<longrightarrow> sameThreadAsParent (comments s))"
proof (intro conjI allI impI)
  assume "findOne (\<lambda>c. comment_id c = parent) (comments s) = None"
  then show "reply s n a parent bd =
        (Inl (NotFound (''Parent comment with ID '' @ parent @ '' not found.'')), s)"
    by (rule reply_missing)
next
  fix pc assume "findOne (\<lambda>c. comment_id c = parent) (comments s) = Some pc"
  then show "reply s n a parent bd =
        (Inr n, s\<lparr>comments := comments s @
           [\<lparr>comment_id = n, author = a, body = bd, threadId = threadId pc,
             parentId = Some parent, reactionIds = []\<rparr>]\<rparr>)"
    by (rule reply_found)
next
  show "threads (snd (reply s n a parent bd)) = threads s"
    by (simp add: reply_def split: option.splits)
next
  assume h: "sameThreadAsParent (comments s) \<and> parentsExist (comments s)
        \<and> distinct (map comment_id (comments s))
        \<and> n \<notin> comment_id ` set (comments s)"
  then show "sameThreadAsParent (comments (snd (reply s n a parent bd)))"
    by (intro sameThread_reply) simp_all
next
  assume "reachable s"
  from reachable_wellFormed[OF this] show "sameThreadAsParent (comments s)"
    unfolding wellFormed_def by simp
qed

theorem reply_joins_parent_thread_witness:
  "findOne (\<lambda>c. comment_id c = ''Z'') (comments scenario) = None
   \<and> reply scenario ''N'' ''alice'' ''Z'' ''hello'' =
        (Inl (NotFound ''Parent comment with ID Z not found.''), scenario)
   \<and> findOne (\<lambda>c. comment_id c = ''R'') (comments scenario) = Some (comments scenario ! 1)
   \<and> parentId (comments scenario ! 1) = Some ''A''
   \<and> reply scenario ''N'' ''alice'' ''R'' ''hello'' =
        (Inr ''N'', scenario\<lparr>comments := comments scenario @
           [\<lparr>comment_id = ''N'', author = ''alice'', body = ''hello'', threadId = ''T1'',
             parentId = Some ''R'', reactionIds = []\<rparr>]\<rparr>)
   \<and> reachable scenario
   \<and> sameThreadAsParent (comments scenario) \<and> parentsExist (comments scenario)
   \<and> distinct (map comment_id (comments scenario))
   \<and> ''N'' \<notin> comment_id ` set (comments scenario)
   \<and> sameThreadAsParent (comments (snd (reply scenario ''N'' ''alice'' ''R'' ''hello'')))"
proof -
  have z: "findOne (\<lambda>c. comment_id c = ''Z'') (comments scenario) = None"
    by (simp add: findOne_def scenario_def)
  have r: "findOne (\<lambda>c. comment_id c = ''R'') (comments scenario) = Some (comments scenario ! 1)"
    by (simp add: findOne_def scenario_def)
  have p: "parentId (comments scenario ! 1) = Some ''A''"
    and t: "threadId (comments scenario ! 1) = ''T1''" by (simp_all add: scenario_def)
  have f: "''N'' \<notin> comment_id ` set (comments scenario)" by (simp add: scenario_def)
  note wf = reachable_wellFormed[OF reachable_scenario]
  note T = reply_joins_parent_thread[of _ scenario "''N''" "''alice''" "''hello''"]
  from T[of "''Z''", THEN conjunct1, THEN mp, OF z]
  have 1: "reply scenario ''N'' ''alice'' ''Z'' ''hello'' =
        (Inl (NotFound ''Parent comment with ID Z not found.''), scenario)" by simp
  from T[of "''R''", THEN conjunct2, THEN conjunct1, THEN spec, THEN mp, OF r]
  have 2: "reply scenario ''N'' ''alice'' ''R'' ''hello'' =
        (Inr ''N'', scenario\<lparr>comments := comments scenario @
           [\<lparr>comment_id = ''N'', author = ''alice'', body = ''hello'', threadId = ''T1'',
             parentId = Some ''R'', reactionIds = []\<rparr>]\<rparr>)" unfolding t .
  note 4 = T[of "''R''", THEN conjunct2, THEN conjunct2, THEN conjunct2, THEN conjunct2,
      THEN mp, OF reachable_scenario]
  from wf have pe: "parentsExist (comments scenario)"
    and dc: "distinct (map comment_id (comments scenario))"
    unfolding wellFormed_def uniqueIds_def by simp_all
  from 4 pe dc f have h: "sameThreadAsParent (comments scenario) \<and> parentsExist (comments scenario)
        \<and> distinct (map comment_id (comments scenario))
        \<and> ''N'' \<notin> comment_id ` set (comments scenario)" by (intro conjI)
  note 3 = T[of "''R''", THEN conjunct2, THEN conjunct2, THEN conjunct2, THEN conjunct1,
      THEN mp, OF h]
  from z 1 r p 2 reachable_scenario 4 pe dc f 3 show ?thesis by (intro conjI)
qed

section \<open>postComment\<close>

lemma oneThread_postComment:
  assumes "oneThreadPerSection (threads s)"
  shows "oneThreadPerSection (threads (snd (postComment s ft n a b sec bd)))"
proof (cases "findOne (\<lambda>t. book t = b \<and> section' t = sec) (threads s)")
  case None
  then have "(b, sec) \<notin> set (map (\<lambda>t. (book t, section' t)) (threads s))"
    unfolding findOne_None_iff by auto
  with assms show ?thesis
    unfolding postComment_threads_new[OF None] oneThreadPerSection_def
    by (simp add: map_updateOne pushTopLevel_def)
next
  case (Some t)
  with assms show ?thesis
    unfolding postComment_threads_old[OF Some] oneThreadPerSection_def
    by (simp add: map_updateOne pushTopLevel_def)
qed

lemma oneThread_deleteComment:
  assumes "oneThreadPerSection (threads s)"
    and "deleteComment s requestor target = Some (res, s')"
  shows "oneThreadPerSection (threads s')"
proof -
  from deleteComment_threads[OF assms(2)]
  have "map (\<lambda>t. (book t, section' t)) (threads s') =
      map (\<lambda>t. (book t, section' t)) (threads s)"
    by (auto simp: map_key_pullTopLevel)
  then show ?thesis using assms(1) unfolding oneThreadPerSection_def by simp
qed

lemma postComment_first:
  assumes none: "findOne (\<lambda>t. book t = b \<and> section' t = sec) (threads s) = None"
    and fresh: "ft \<notin> thread_id ` set (threads s)"
  shows "postComment s ft n a b sec bd =
    (Inr n,
     \<lparr>threads = threads s @
        [\<lparr>thread_id = ft, book = b, section' = sec, topLevelCommentIds = [n]\<rparr>],
      comments = comments s @
        [\<lparr>comment_id = n, author = a, body = bd, threadId = ft, parentId = None,
          reactionIds = []\<rparr>],
      reactions = reactions s\<rparr>)"
proof -
  have "\<forall>t \<in> set (threads s). \<not> thread_id t = ft" using fresh by auto
  then have "updateOne (\<lambda>t. thread_id t = ft) (pushTopLevel n)
      (threads s @ [\<lparr>thread_id = ft, book = b, section' = sec, topLevelCommentIds = []\<rparr>]) =
      threads s @ [\<lparr>thread_id = ft, book = b, section' = sec, topLevelCommentIds = [n]\<rparr>]"
    by (simp add: updateOne_append_miss pushTopLevel_def)
  then show ?thesis using none
    by (simp add: postComment_def Let_def insertOne_def)
qed

lemma postComment_again:
  assumes none: "findOne (\<lambda>t. book t = b \<and> section' t = sec) ts = None"
    and fresh: "ft \<notin> thread_id ` set ts"
  shows "postComment
     \<lparr>threads = ts @ [\<lparr>thread_id = ft, book = b, section' = sec, topLevelCommentIds = ids\<rparr>],
      comments = cs, reactions = rs\<rparr> ft2 n2 a2 b sec bd2 =
    (Inr n2,
     \<lparr>threads = ts @
        [\<lparr>thread_id = ft, book = b, section' = sec, topLevelCommentIds = ids @ [n2]\<rparr>],
      comments = cs @
        [\<lparr>comment_id = n2, author = a2, body = bd2, threadId = ft, parentId = None,
          reactionIds = []\<rparr>],
      reactions = rs\<rparr>)"
proof -
  let ?T = "\<lparr>thread_id = ft, book = b, section' = sec, topLevelCommentIds = ids\<rparr>"
  have found: "findOne (\<lambda>t. book t = b \<and> section' t = sec) (ts @ [?T]) = Some ?T"
    by (simp add: findOne_append none) (simp add: findOne_def)
  have "\<forall>t \<in> set ts. \<not> thread_id t = ft" using fresh by auto
  then have "updateOne (\<lambda>t. thread_id t = ft) (pushTopLevel n2) (ts @ [?T]) =
      ts @ [\<lparr>thread_id = ft, book = b, section' = sec, topLevelCommentIds = ids @ [n2]\<rparr>]"
    by (simp add: updateOne_append_miss pushTopLevel_def)
  then show ?thesis using found
    by (simp add: postComment_def Let_def insertOne_def)
qed

lemma filter_none: "findOne P xs = None \<Longrightarrow> filter P xs = []"
  unfolding findOne_None_iff by (simp add: filter_empty_conv)

lemma findOne_pushTopLevel_distinct:
  assumes "distinct (map thread_id ts)"
    and "findOne (\<lambda>t. book t = b \<and> section' t = sec) ts = Some t"
  shows "findOne (\<lambda>t. book t = b \<and> section' t = sec)
           (updateOne (\<lambda>x. thread_id x = thread_id t) (pushTopLevel n) ts) =
         Some (pushTopLevel n t)"
  using assms
proof (induction ts)
  case Nil
  then show ?case by (simp add: findOne_def)
next
  case (Cons x xs)
  show ?case
  proof (cases "book x = b \<and> section' x = sec")
    case True
    with Cons.prems(2) have "x = t" by (simp add: findOne_def)
    with True show ?thesis by (simp add: findOne_def pushTopLevel_def)
  next
    case False
    with Cons.prems(2) have f: "findOne (\<lambda>t. book t = b \<and> section' t = sec) xs = Some t"
      by (simp add: findOne_def)
    from findOne_Some_mem[OF f] have "t \<in> set xs" by simp
    then have "thread_id t \<in> thread_id ` set xs" by (rule imageI)
    with Cons.prems(1) have ne: "thread_id x \<noteq> thread_id t" by auto
    from Cons.prems(1) have "distinct (map thread_id xs)" by simp
    from Cons.IH[OF this f] False ne show ?thesis by (auto simp: findOne_def)
  qed
qed

lemma oneThread_at_most_one:
  assumes "oneThreadPerSection ts"
  shows "length (filter (\<lambda>t. book t = b \<and> section' t = sec) ts) \<le> 1"
proof -
  have "length (filter (\<lambda>t. book t = b \<and> section' t = sec) ts) =
      length (filter (\<lambda>k. k = (b, sec)) (map (\<lambda>t. (book t, section' t)) ts))"
    by (simp add: filter_map comp_def)
  also have "\<dots> = card ({k. k = (b, sec)} \<inter> set (map (\<lambda>t. (book t, section' t)) ts))"
    using assms unfolding oneThreadPerSection_def by (rule distinct_length_filter)
  also have "\<dots> \<le> card {(b, sec)}"
    by (rule card_mono) auto
  finally show ?thesis by simp
qed

text \<open>
  C5. When no thread exists for (book, section), \<open>postComment\<close> adds exactly one
  thread for the pair, whose top-level list is the new comment id, and returns that id;
  a second \<open>postComment\<close> to the same pair adds no thread and appends its comment id to
  the same thread, so the pair still has one thread. When a thread for the pair exists it
  is reused. Each action keeps the property that no two threads share a (book, section)
  pair, and every reachable state has it.
\<close>

theorem postComment_one_thread_per_section:
  "(findOne (\<lambda>t. book t = b \<and> section' t = sec) (threads s) = None
      \<and> ft \<notin> thread_id ` set (threads s) \<longrightarrow>
      fst (postComment s ft n a b sec bd) = Inr n
      \<and> threads (snd (postComment s ft n a b sec bd)) =
          threads s @ [\<lparr>thread_id = ft, book = b, section' = sec, topLevelCommentIds = [n]\<rparr>]
      \<and> filter (\<lambda>t. book t = b \<and> section' t = sec)
            (threads (snd (postComment s ft n a b sec bd))) =
          [\<lparr>thread_id = ft, book = b, section' = sec, topLevelCommentIds = [n]\<rparr>]
      \<and> fst (postComment (snd (postComment s ft n a b sec bd)) ft2 n2 a2 b sec bd2) = Inr n2
      \<and> filter (\<lambda>t. book t = b \<and> section' t = sec)
            (threads (snd (postComment (snd (postComment s ft n a b sec bd))
                            ft2 n2 a2 b sec bd2))) =
          [\<lparr>thread_id = ft, book = b, section' = sec, topLevelCommentIds = [n, n2]\<rparr>])
   \<and> (\<forall>t. findOne (\<lambda>t. book t = b \<and> section' t = sec) (threads s) = Some t
          \<and> distinct (map thread_id (threads s)) \<longrightarrow>
        fst (postComment s ft n a b sec bd) = Inr n
        \<and> length (threads (snd (postComment s ft n a b sec bd))) = length (threads s)
        \<and> findOne (\<lambda>t. book t = b \<and> section' t = sec)
              (threads (snd (postComment s ft n a b sec bd))) =
            Some (t\<lparr>topLevelCommentIds := topLevelCommentIds t @ [n]\<rparr>))
   \<and> (oneThreadPerSection (threads s) \<longrightarrow>
        length (filter (\<lambda>t. book t = b \<and> section' t = sec) (threads s)) \<le> 1
        \<and> oneThreadPerSection (threads (snd (postComment s ft n a b sec bd)))
        \<and> oneThreadPerSection (threads (snd (reply s n' a' parent bd')))
        \<and> oneThreadPerSection (threads (snd (react s n'' u target ty)))
        \<and> (\<forall>res s'. deleteComment s requestor target' = Some (res, s') \<longrightarrow>
              oneThreadPerSection (threads s')))
   \<and> (reachable s \<longrightarrow> oneThreadPerSection (threads s))"
proof (intro conjI allI impI)
  let ?P = "\<lambda>t. book t = b \<and> section' t = sec"
  assume h: "findOne ?P (threads s) = None \<and> ft \<notin> thread_id ` set (threads s)"
  then have none: "findOne ?P (threads s) = None"
    and fresh: "ft \<notin> thread_id ` set (threads s)" by simp_all
  note first = postComment_first[OF none fresh, of n a bd]
  note again = postComment_again[OF none fresh, of "[n]" _ _ ft2 n2 a2 bd2]
  show "fst (postComment s ft n a b sec bd) = Inr n" unfolding first by simp
  show "threads (snd (postComment s ft n a b sec bd)) =
          threads s @ [\<lparr>thread_id = ft, book = b, section' = sec, topLevelCommentIds = [n]\<rparr>]"
    unfolding first by simp
  show "filter ?P (threads (snd (postComment s ft n a b sec bd))) =
          [\<lparr>thread_id = ft, book = b, section' = sec, topLevelCommentIds = [n]\<rparr>]"
    unfolding first by (simp add: filter_none[OF none])
  show "fst (postComment (snd (postComment s ft n a b sec bd)) ft2 n2 a2 b sec bd2) = Inr n2"
    unfolding first snd_conv again by simp
  show "filter ?P (threads (snd (postComment (snd (postComment s ft n a b sec bd))
                            ft2 n2 a2 b sec bd2))) =
          [\<lparr>thread_id = ft, book = b, section' = sec, topLevelCommentIds = [n, n2]\<rparr>]"
    unfolding first snd_conv again by (simp add: filter_none[OF none])
next
  fix t
  let ?P = "\<lambda>t. book t = b \<and> section' t = sec"
  assume h: "findOne ?P (threads s) = Some t \<and> distinct (map thread_id (threads s))"
  then have some: "findOne ?P (threads s) = Some t"
    and dist: "distinct (map thread_id (threads s))" by simp_all
  show "fst (postComment s ft n a b sec bd) = Inr n" by (rule postComment_result)
  show "length (threads (snd (postComment s ft n a b sec bd))) = length (threads s)"
    unfolding postComment_threads_old[OF some] by (rule length_updateOne)
  show "findOne ?P (threads (snd (postComment s ft n a b sec bd))) =
            Some (t\<lparr>topLevelCommentIds := topLevelCommentIds t @ [n]\<rparr>)"
    unfolding postComment_threads_old[OF some] findOne_pushTopLevel_distinct[OF dist some]
    by (simp add: pushTopLevel_def)
next
  assume ot: "oneThreadPerSection (threads s)"
  then show "length (filter (\<lambda>t. book t = b \<and> section' t = sec) (threads s)) \<le> 1"
    by (rule oneThread_at_most_one)
  from ot show "oneThreadPerSection (threads (snd (postComment s ft n a b sec bd)))"
    by (rule oneThread_postComment)
  from ot show "oneThreadPerSection (threads (snd (reply s n' a' parent bd')))"
    by (simp add: reply_def split: option.splits)
  from ot show "oneThreadPerSection (threads (snd (react s n'' u target ty)))"
    by (simp add: react_def Let_def split: option.splits)
  fix res s' assume "deleteComment s requestor target' = Some (res, s')"
  with ot show "oneThreadPerSection (threads s')" by (rule oneThread_deleteComment)
next
  assume "reachable s"
  from reachable_wellFormed[OF this] show "oneThreadPerSection (threads s)"
    unfolding wellFormed_def by simp
qed

theorem postComment_one_thread_per_section_witness:
  "findOne (\<lambda>t. book t = ''B1'' \<and> section' t = ''S1'') (threads emptyState) = None
   \<and> ''T1'' \<notin> thread_id ` set (threads emptyState)
   \<and> filter (\<lambda>t. book t = ''B1'' \<and> section' t = ''S1'')
        (threads (snd (postComment emptyState ''T1'' ''A'' ''alice'' ''B1'' ''S1'' ''first''))) =
       [\<lparr>thread_id = ''T1'', book = ''B1'', section' = ''S1'', topLevelCommentIds = [''A'']\<rparr>]
   \<and> filter (\<lambda>t. book t = ''B1'' \<and> section' t = ''S1'')
        (threads (snd (postComment
           (snd (postComment emptyState ''T1'' ''A'' ''alice'' ''B1'' ''S1'' ''first''))
           ''T2'' ''C'' ''bob'' ''B1'' ''S1'' ''second''))) =
       [\<lparr>thread_id = ''T1'', book = ''B1'', section' = ''S1'',
         topLevelCommentIds = [''A'', ''C'']\<rparr>]
   \<and> findOne (\<lambda>t. book t = ''B1'' \<and> section' t = ''S1'') (threads scenario)
        = Some (hd (threads scenario))
   \<and> distinct (map thread_id (threads scenario))
   \<and> findOne (\<lambda>t. book t = ''B1'' \<and> section' t = ''S1'')
        (threads (snd (postComment scenario ''T2'' ''D'' ''bob'' ''B1'' ''S1'' ''third''))) =
       Some ((hd (threads scenario))\<lparr>topLevelCommentIds := [''A'', ''C'', ''D'']\<rparr>)
   \<and> reachable scenario \<and> oneThreadPerSection (threads scenario)
   \<and> deleteComment scenario ''alice'' ''A'' = Some (Inr (), afterDelete)
   \<and> oneThreadPerSection (threads afterDelete)
   \<and> oneThreadPerSection
        (threads (snd (postComment scenario ''T2'' ''D'' ''bob'' ''B1'' ''S1'' ''third'')))"
proof -
  have e: "findOne (\<lambda>t. book t = ''B1'' \<and> section' t = ''S1'') (threads emptyState) = None"
    and f: "''T1'' \<notin> thread_id ` set (threads emptyState)"
    by (simp_all add: emptyState_def findOne_def)
  have g: "findOne (\<lambda>t. book t = ''B1'' \<and> section' t = ''S1'') (threads scenario)
        = Some (hd (threads scenario))"
    and d: "distinct (map thread_id (threads scenario))"
    and l: "topLevelCommentIds (hd (threads scenario)) = [''A'', ''C'']"
    by (simp_all add: scenario_def findOne_def)
  note T1 = postComment_one_thread_per_section[of "''B1''" "''S1''" emptyState "''T1''" "''A''"
      "''alice''" "''first''" "''T2''" "''C''" "''bob''" "''second''",
      THEN conjunct1, THEN mp, OF conjI, OF e f]
  note T = postComment_one_thread_per_section[of "''B1''" "''S1''" scenario "''T2''" "''D''"
      "''bob''" "''third''"]
  note T2 = T[THEN conjunct2, THEN conjunct1, THEN spec, THEN mp, OF conjI, OF g d]
  note T4 = T[THEN conjunct2, THEN conjunct2, THEN conjunct2, THEN mp, OF reachable_scenario]
  note T3 = T[of _ _ _ _ _ _ _ _ _ _ _ _ "''alice''" "''A''",
      THEN conjunct2, THEN conjunct2, THEN conjunct1, THEN mp, OF T4]
  have a: "findOne (\<lambda>t. book t = ''B1'' \<and> section' t = ''S1'')
        (threads (snd (postComment scenario ''T2'' ''D'' ''bob'' ''B1'' ''S1'' ''third''))) =
       Some ((hd (threads scenario))\<lparr>topLevelCommentIds := [''A'', ''C'', ''D'']\<rparr>)"
    using T2[THEN conjunct2, THEN conjunct2] unfolding l by simp
  have b: "oneThreadPerSection (threads afterDelete)"
    by (rule T3[THEN conjunct2, THEN conjunct2, THEN conjunct2, THEN conjunct2,
          THEN spec, THEN spec, THEN mp, OF deleteComment_scenario])
  note c = T3[THEN conjunct2, THEN conjunct1]
  from e f T1[THEN conjunct2, THEN conjunct2, THEN conjunct1]
    T1[THEN conjunct2, THEN conjunct2, THEN conjunct2, THEN conjunct2]
    g d a reachable_scenario T4 deleteComment_scenario b c
  show ?thesis by (intro conjI)
qed

section \<open>Queries are read-only\<close>

text \<open>
  C9. Each of the four queries returns the state it was given, and never an error
  record. \<open>getComment\<close> on an id no comment carries returns \<^verbatim>\<open>null\<close>;
  \<open>getThreadByBookAndSection\<close> on a pair without a thread returns \<^verbatim>\<open>null\<close> and
  \<open>getThreadComments\<close> returns the empty list there; in a reachable state
  \<open>getCommentReactions\<close> on an id no comment carries returns the empty list.
\<close>

theorem queries_are_read_only:
  "snd (getThreadComments s b sec) = s \<and> snd (getCommentReactions s c) = s
   \<and> snd (getComment s c) = s \<and> snd (getThreadByBookAndSection s b sec) = s
   \<and> (\<exists>cs. fst (getThreadComments s b sec) = Inr cs)
   \<and> (\<exists>rs. fst (getCommentReactions s c) = Inr rs)
   \<and> (\<exists>r. fst (getComment s c) = Inr r)
   \<and> (\<exists>r. fst (getThreadByBookAndSection s b sec) = Inr r)
   \<and> ((\<forall>d \<in> set (comments s). comment_id d \<noteq> c) \<longrightarrow> fst (getComment s c) = Inr None)
   \<and> ((\<forall>t \<in> set (threads s). \<not> (book t = b \<and> section' t = sec)) \<longrightarrow>
        fst (getThreadByBookAndSection s b sec) = Inr None
        \<and> fst (getThreadComments s b sec) = Inr [])
   \<and> (reachable s \<and> (\<forall>d \<in> set (comments s). comment_id d \<noteq> c) \<longrightarrow>
        fst (getCommentReactions s c) = Inr [])"
proof (intro conjI impI)
  show "snd (getThreadComments s b sec) = s"
    by (simp add: getThreadComments_def split: option.splits)
  show "snd (getCommentReactions s c) = s" by (simp add: getCommentReactions_def)
  show "snd (getComment s c) = s" by (simp add: getComment_def)
  show "snd (getThreadByBookAndSection s b sec) = s"
    by (simp add: getThreadByBookAndSection_def)
  show "\<exists>cs. fst (getThreadComments s b sec) = Inr cs"
    by (simp add: getThreadComments_def split: option.splits)
  show "\<exists>rs. fst (getCommentReactions s c) = Inr rs" by (simp add: getCommentReactions_def)
  show "\<exists>r. fst (getComment s c) = Inr r" by (simp add: getComment_def)
  show "\<exists>r. fst (getThreadByBookAndSection s b sec) = Inr r"
    by (simp add: getThreadByBookAndSection_def)
next
  assume "\<forall>d \<in> set (comments s). comment_id d \<noteq> c"
  then have "findOne (\<lambda>d. comment_id d = c) (comments s) = None"
    unfolding findOne_None_iff by simp
  then show "fst (getComment s c) = Inr None" by (simp add: getComment_def)
next
  assume "\<forall>t \<in> set (threads s). \<not> (book t = b \<and> section' t = sec)"
  then have n: "findOne (\<lambda>t. book t = b \<and> section' t = sec) (threads s) = None"
    unfolding findOne_None_iff by simp
  then show "fst (getThreadByBookAndSection s b sec) = Inr None"
    by (simp add: getThreadByBookAndSection_def)
  from n show "fst (getThreadComments s b sec) = Inr []"
    by (simp add: getThreadComments_def)
next
  assume h: "reachable s \<and> (\<forall>d \<in> set (comments s). comment_id d \<noteq> c)"
  then have "targetsExist s" using reachable_wellFormed unfolding wellFormed_def by blast
  with h have "\<forall>r \<in> set (reactions s). targetCommentId r \<noteq> c"
    unfolding targetsExist_def by force
  then show "fst (getCommentReactions s c) = Inr []"
    by (simp add: getCommentReactions_def findToArray_def filter_empty_conv)
qed

theorem queries_are_read_only_witness:
  "reachable scenario
   \<and> findOne (\<lambda>d. comment_id d = ''Z'') (comments scenario) = None
   \<and> findOne (\<lambda>t. book t = ''B2'' \<and> section' t = ''S1'') (threads scenario) = None
   \<and> getComment scenario ''Z'' = (Inr None, scenario)
   \<and> getCommentReactions scenario ''Z'' = (Inr [], scenario)
   \<and> getThreadByBookAndSection scenario ''B2'' ''S1'' = (Inr None, scenario)
   \<and> getThreadComments scenario ''B2'' ''S1'' = (Inr [], scenario)"
proof -
  have a: "\<forall>d \<in> set (comments scenario). comment_id d \<noteq> ''Z''"
    and b: "\<forall>t \<in> set (threads scenario). \<not> (book t = ''B2'' \<and> section' t = ''S1'')"
    by (simp_all add: scenario_def)
  note T = queries_are_read_only[of scenario "''B2''" "''S1''" "''Z''"]
  note s1 = T[THEN conjunct1]
  note s2 = T[THEN conjunct2, THEN conjunct1]
  note s3 = T[THEN conjunct2, THEN conjunct2, THEN conjunct1]
  note s4 = T[THEN conjunct2, THEN conjunct2, THEN conjunct2, THEN conjunct1]
  note rest = T[THEN conjunct2, THEN conjunct2, THEN conjunct2, THEN conjunct2,
      THEN conjunct2, THEN conjunct2, THEN conjunct2, THEN conjunct2]
  note q1 = rest[THEN conjunct1, THEN mp, OF a]
  note q2 = rest[THEN conjunct2, THEN conjunct1, THEN mp, OF b]
  note q3 = rest[THEN conjunct2, THEN conjunct2, THEN mp, OF conjI, OF reachable_scenario a]
  have "getComment scenario ''Z'' = (Inr None, scenario)"
    using q1 s3 by (simp add: prod_eq_iff)
  moreover have "getCommentReactions scenario ''Z'' = (Inr [], scenario)"
    using q3 s2 by (simp add: prod_eq_iff)
  moreover have "getThreadByBookAndSection scenario ''B2'' ''S1'' = (Inr None, scenario)"
    using q2 s4 by (simp add: prod_eq_iff)
  moreover have "getThreadComments scenario ''B2'' ''S1'' = (Inr [], scenario)"
    using q2 s1 by (simp add: prod_eq_iff)
  moreover have "findOne (\<lambda>d. comment_id d = ''Z'') (comments scenario) = None"
    and "findOne (\<lambda>t. book t = ''B2'' \<and> section' t = ''S1'') (threads scenario) = None"
    by (simp_all add: findOne_def scenario_def)
  ultimately show ?thesis using reachable_scenario by (intro conjI)
qed

section \<open>Failure of deleteComment\<close>

text \<open>
  C2. \<open>deleteComment\<close> fails with \<open>NotFound\<close> when the target does not resolve to
  a comment, and with \<open>Forbidden\<close> when it does and the requestor is not its author; in
  both cases the state it leaves is the state it was given: threads, comments and reactions
  are all unchanged.
\<close>

theorem deleteComment_failure_keeps_state:
  "(findOne (\<lambda>c. comment_id c = target) (comments s) = None \<longrightarrow>
      deleteComment s requestor target =
        Some (Inl (NotFound (''Comment with ID '' @ target @ '' not found.'')), s))
   \<and> (\<forall>tc. findOne (\<lambda>c. comment_id c = target) (comments s) = Some tc
            \<and> author tc \<noteq> requestor \<longrightarrow>
      deleteComment s requestor target =
        Some (Inl (Forbidden (''Requestor is not the author of comment '' @ target @ ''.'')), s))"
  by (simp add: deleteComment_def)

theorem deleteComment_failure_keeps_state_witness:
  "findOne (\<lambda>c. comment_id c = ''Z'') (comments scenario) = None
   \<and> deleteComment scenario ''alice'' ''Z'' =
       Some (Inl (NotFound ''Comment with ID Z not found.''), scenario)
   \<and> (\<exists>tc. findOne (\<lambda>c. comment_id c = ''A'') (comments scenario) = Some tc
          \<and> author tc \<noteq> ''bob'')
   \<and> deleteComment scenario ''bob'' ''A'' =
       Some (Inl (Forbidden ''Requestor is not the author of comment A.''), scenario)"
proof -
  have a: "findOne (\<lambda>c. comment_id c = ''Z'') (comments scenario) = None"
    by (simp add: findOne_def scenario_def)
  have b: "findOne (\<lambda>c. comment_id c = ''A'') (comments scenario) = Some (hd (comments scenario))
      \<and> author (hd (comments scenario)) \<noteq> ''bob''"
    by (simp add: findOne_def scenario_def)
  from a b deleteComment_failure_keeps_state[of "''Z''" scenario "''alice''"]
    deleteComment_failure_keeps_state[of "''A''" scenario "''bob''"]
  show ?thesis by auto
qed

end
